theory Spec2Isabelle
  imports Main "HOL-Library.Sublist" "HOL-Library.Word"
begin

section \<open>Text, bytes and the library functions the tool calls\<close>

text \<open>
  A Python \<open>str\<close> is a sequence of Unicode code points, so it is modelled as a list of
  natural numbers; \<open>len\<close> is \<open>length\<close> and the test \<open>a in b\<close> on strings is
  \<open>sublist a b\<close>. A \<open>bytes\<close> value is a list of octets. String constants of the source
  are written with \<open>py\<close>, which maps every character of a literal to its code point; the
  characters that cannot stand in a literal are given by number.
\<close>

type_synonym str = "nat list"

type_synonym bytes = "8 word list"

definition py :: "string \<Rightarrow> str" where
  "py s = map of_char s"

definition nl :: str where
  "nl = [10]"

definition bslash :: str where
  "bslash = [92]"

definition dquote :: str where
  "dquote = [34]"

definition squote :: str where
  "squote = [39]"

text \<open>
  \<open>str.isspace\<close> on one code point; the same predicate decides \<open>\s\<close> in a regular
  expression over \<open>str\<close> and what \<open>str.strip()\<close> removes.
\<close>

definition is_space :: "nat \<Rightarrow> bool" where
  "is_space c \<longleftrightarrow>
     (9 \<le> c \<and> c \<le> 13) \<or> (28 \<le> c \<and> c \<le> 32) \<or> c = 133 \<or> c = 160 \<or> c = 5760 \<or>
     (8192 \<le> c \<and> c \<le> 8202) \<or> c = 8232 \<or> c = 8233 \<or> c = 8239 \<or> c = 8287 \<or> c = 12288"

definition strip :: "str \<Rightarrow> str" where
  "strip s = rev (dropWhile is_space (rev (dropWhile is_space s)))"

text \<open>\<open>sep.join(parts)\<close>.\<close>

fun join :: "str \<Rightarrow> str list \<Rightarrow> str" where
  "join sep [] = []"
| "join sep [x] = x"
| "join sep (x # y # ys) = x @ sep @ join sep (y # ys)"

text \<open>\<open>str(n)\<close> for an integer: decimal digits, a minus sign for a negative number.\<close>

function str_nat :: "nat \<Rightarrow> str" where
  "str_nat n = (if n < 10 then [48 + n] else str_nat (n div 10) @ [48 + n mod 10])"
  by pat_completeness auto
termination
  by (relation "measure (\<lambda>n. n)") auto

declare str_nat.simps [simp del]

definition str_int :: "int \<Rightarrow> str" where
  "str_int i = (if i < 0 then 45 # str_nat (nat (- i)) else str_nat (nat i))"

text \<open>\<open>s.replace("'", r)\<close>: every occurrence of the one-character pattern is replaced.\<close>

definition replace_squote :: "str \<Rightarrow> str \<Rightarrow> str" where
  "replace_squote r s = concat (map (\<lambda>c. if [c] = squote then r else [c]) s)"

text \<open>
  A resolved \<open>pathlib.Path\<close>: its anchor (drive and root), whether \<open>is_absolute()\<close>
  holds of it, and its components below the anchor, in the form pathlib compares
  (case-folded on Windows), so that equality of the model is \<open>==\<close> on paths.
  \<open>p.parents\<close> lists the logical ancestors, nearest first.
\<close>

datatype ppath = PPath (anchor: str) (is_absolute: bool) (parts: "str list")

definition parents :: "ppath \<Rightarrow> ppath list" where
  "parents p = map (\<lambda>k. PPath (anchor p) (is_absolute p) (take k (parts p)))
                   (rev [0..<length (parts p)])"

text \<open>
  What the standard library and the operating system answer. Patterns are regular
  expressions given by their source text; \<open>re_match_at e p s i\<close> says that pattern \<open>p\<close>
  matches in \<open>s\<close> starting at offset \<open>i\<close>, and \<open>re.search\<close> scans all offsets.
  \<open>path_resolve\<close> is \<open>Path(x).resolve()\<close>, with \<open>None\<close> when it raises. Decoding
  with \<open>errors="replace"\<close> is total. The record gives the answers of \<open>re.search\<close>
  and \<open>os.getcwd()\<close> when they answer; whether they raise is told apart (\<open>faults\<close>
  below), and \<open>guard_command\<close> and \<open>execute\<close> are the source's functions for calls
  in which they do not.
\<close>

record env =
  re_match_at :: "str \<Rightarrow> str \<Rightarrow> nat \<Rightarrow> bool"
  str_lower :: "str \<Rightarrow> str"
  os_getcwd :: str
  path_resolve :: "str \<Rightarrow> ppath option"
  os_environ :: "str \<rightharpoonup> str"
  os_pathsep :: str
  shutil_which :: "str \<Rightarrow> str option"
  utf8_decode :: "bytes \<Rightarrow> str"

definition re_search :: "env \<Rightarrow> str \<Rightarrow> str \<Rightarrow> bool" where
  "re_search e p s = list_ex (re_match_at e p s) [0..<Suc (length s)]"

section \<open>The tool's configuration\<close>

fun detect_shell_loop :: "env \<Rightarrow> str list \<Rightarrow> str" where
  "detect_shell_loop e [] = py ''/bin/sh''"
| "detect_shell_loop e (shell # shells) =
     (case shutil_which e shell of
        Some shell_path \<Rightarrow> if shell_path \<noteq> [] then shell_path else detect_shell_loop e shells
      | None \<Rightarrow> detect_shell_loop e shells)"

definition detect_shell :: "env \<Rightarrow> str" where
  "detect_shell e = detect_shell_loop e [py ''fish'', py ''bash'', py ''zsh'', py ''sh'']"

record config =
  timeout :: int
  working_dir :: "str option"
  deny_patterns :: "str list"
  allow_patterns :: "str list"
  restrict_to_workspace :: bool
  path_append :: str
  shell :: str

definition default_deny_patterns :: "str list" where
  "default_deny_patterns =
     [bslash @ py ''brm'' @ bslash @ py ''s+-[rf]{1,2}'' @ bslash @ py ''b'',
      bslash @ py ''bdel'' @ bslash @ py ''s+/[fq]'' @ bslash @ py ''b'',
      bslash @ py ''brmdir'' @ bslash @ py ''s+/s'' @ bslash @ py ''b'',
      py ''(?:^|[;&|]'' @ bslash @ py ''s*)format'' @ bslash @ py ''b'',
      bslash @ py ''b(mkfs|diskpart)'' @ bslash @ py ''b'',
      bslash @ py ''bdd'' @ bslash @ py ''s+if='',
      py ''>'' @ bslash @ py ''s*/dev/sd'',
      bslash @ py ''b(shutdown|reboot|poweroff)'' @ bslash @ py ''b'',
      py '':'' @ bslash @ py ''('' @ bslash @ py '')'' @ bslash @ py ''s*'' @ bslash @
        py ''{.*'' @ bslash @ py ''};'' @ bslash @ py ''s*:'']"

text \<open>
  \<open>ExecTool.__init__\<close>. An argument whose default is \<open>None\<close> is an option; \<open>x or d\<close>
  takes \<open>d\<close> when \<open>x\<close> is \<open>None\<close> or empty.
\<close>

definition ExecTool_init ::
  "env \<Rightarrow> int \<Rightarrow> str option \<Rightarrow> str list option \<Rightarrow> str list option \<Rightarrow> bool \<Rightarrow> str \<Rightarrow> config" where
  "ExecTool_init e timeout_arg working_dir_arg deny_arg allow_arg restrict_arg path_append_arg =
     \<lparr> timeout = timeout_arg,
       working_dir = working_dir_arg,
       deny_patterns =
         (case deny_arg of
            Some ps \<Rightarrow> if ps \<noteq> [] then ps else default_deny_patterns
          | None \<Rightarrow> default_deny_patterns),
       allow_patterns =
         (case allow_arg of Some ps \<Rightarrow> if ps \<noteq> [] then ps else [] | None \<Rightarrow> []),
       restrict_to_workspace = restrict_arg,
       path_append = path_append_arg,
       shell = detect_shell e \<rparr>"

section \<open>The safety guard\<close>

definition msg_dangerous :: str where
  "msg_dangerous = py ''Error: Command blocked by safety guard (dangerous pattern detected)''"

definition msg_not_allowed :: str where
  "msg_not_allowed = py ''Error: Command blocked by safety guard (not in allowlist)''"

definition msg_traversal :: str where
  "msg_traversal = py ''Error: Command blocked by safety guard (path traversal detected)''"

definition msg_outside :: str where
  "msg_outside = py ''Error: Command blocked by safety guard (path outside working dir)''"

text \<open>
  \<open>_extract_absolute_paths\<close>: \<open>re.findall\<close> with two fixed patterns, scanned left to
  right, each match taken greedily and the scan resumed where the match ended.
  The Windows pattern is \<open>[A-Za-z]:\\[^\s"'|><;]+\<close>: a letter, a colon, a backslash
  and a non-empty run of characters outside the class. The POSIX pattern is
  \<open>(?:^|[\s|>])(/[^\s"'>]+)\<close>, of which \<open>findall\<close> returns the group: a slash and a
  non-empty run, at offset 0 (\<open>posix_paths\<close>) or after one character of the leading
  class (\<open>posix_scan\<close>).
\<close>

definition ascii_letter :: "nat \<Rightarrow> bool" where
  "ascii_letter c \<longleftrightarrow> (65 \<le> c \<and> c \<le> 90) \<or> (97 \<le> c \<and> c \<le> 122)"

definition win_char :: "nat \<Rightarrow> bool" where
  "win_char c \<longleftrightarrow> \<not> (is_space c \<or> c = 34 \<or> c = 39 \<or> c = 124 \<or> c = 62 \<or> c = 60 \<or> c = 59)"

definition posix_char :: "nat \<Rightarrow> bool" where
  "posix_char c \<longleftrightarrow> \<not> (is_space c \<or> c = 34 \<or> c = 39 \<or> c = 62)"

definition posix_lead :: "nat \<Rightarrow> bool" where
  "posix_lead c \<longleftrightarrow> is_space c \<or> c = 124 \<or> c = 62"

function win_paths :: "str \<Rightarrow> str list" where
  "win_paths [] = []"
| "win_paths (c # cs) =
     (if ascii_letter c \<and> take 2 cs = [58, 92] \<and> takeWhile win_char (drop 2 cs) \<noteq> []
      then (c # 58 # 92 # takeWhile win_char (drop 2 cs)) #
           win_paths (dropWhile win_char (drop 2 cs))
      else win_paths cs)"
  by pat_completeness auto
termination
  by (relation "measure length")
     (auto simp: less_Suc_eq_le intro: order_trans [OF length_dropWhile_le])

function posix_scan :: "str \<Rightarrow> str list" where
  "posix_scan [] = []"
| "posix_scan (c # cs) =
     (if posix_lead c \<and> take 1 cs = [47] \<and> takeWhile posix_char (drop 1 cs) \<noteq> []
      then (47 # takeWhile posix_char (drop 1 cs)) #
           posix_scan (dropWhile posix_char (drop 1 cs))
      else posix_scan cs)"
  by pat_completeness auto
termination
  by (relation "measure length")
     (auto simp: less_Suc_eq_le intro: order_trans [OF length_dropWhile_le])

definition posix_paths :: "str \<Rightarrow> str list" where
  "posix_paths s =
     (if take 1 s = [47] \<and> takeWhile posix_char (drop 1 s) \<noteq> []
      then (47 # takeWhile posix_char (drop 1 s)) #
           posix_scan (dropWhile posix_char (drop 1 s))
      else posix_scan s)"

definition extract_absolute_paths :: "str \<Rightarrow> str list" where
  "extract_absolute_paths command = win_paths command @ posix_paths command"

text \<open>The loop over the deny patterns: the first pattern that is found returns.\<close>

fun deny_loop :: "env \<Rightarrow> str list \<Rightarrow> str \<Rightarrow> str option" where
  "deny_loop e [] lower = None"
| "deny_loop e (pattern # patterns) lower =
     (if re_search e pattern lower then Some msg_dangerous else deny_loop e patterns lower)"

text \<open>The loop over the extracted paths; a path whose resolution raises is skipped.\<close>

fun path_loop :: "env \<Rightarrow> ppath \<Rightarrow> str list \<Rightarrow> str option" where
  "path_loop e cwd_path [] = None"
| "path_loop e cwd_path (raw # raws) =
     (case path_resolve e (strip raw) of
        None \<Rightarrow> path_loop e cwd_path raws
      | Some p \<Rightarrow>
          if is_absolute p \<and> cwd_path \<notin> set (parents p) \<and> p \<noteq> cwd_path
          then Some msg_outside
          else path_loop e cwd_path raws)"

text \<open>
  The exceptions that leave \<open>execute\<close>. The statements before the \<open>try\<close> block are
  not guarded: \<open>Path(cwd).resolve()\<close> in the guard, \<open>re.search\<close> in the guard
  (\<open>re.error\<close> on a pattern that is not a regular expression) and \<open>os.getcwd()\<close>.
\<close>

datatype exn = ResolveRaised | ReError | GetcwdRaised

definition guard_command :: "config \<Rightarrow> env \<Rightarrow> str \<Rightarrow> str \<Rightarrow> exn + str option" where
  "guard_command cfg e command cwd =
     (let cmd = strip command; lower = str_lower e cmd in
      case deny_loop e (deny_patterns cfg) lower of
        Some m \<Rightarrow> Inr (Some m)
      | None \<Rightarrow>
          if allow_patterns cfg \<noteq> [] \<and> \<not> list_ex (\<lambda>p. re_search e p lower) (allow_patterns cfg)
          then Inr (Some msg_not_allowed)
          else if restrict_to_workspace cfg
          then
            if sublist (py ''..'' @ bslash) cmd \<or> sublist (py ''../'') cmd
            then Inr (Some msg_traversal)
            else
              (case path_resolve e cwd of
                 None \<Rightarrow> Inl ResolveRaised
               | Some cwd_path \<Rightarrow> Inr (path_loop e cwd_path (extract_absolute_paths cmd)))
          else Inr None)"

section \<open>Running the command\<close>

text \<open>
  What happens to the subprocess of one call: whether it can be created, how
  \<open>communicate()\<close> under the timeout ends, how the wait after the kill ends, and
  whether creating the history process raises. \<open>SpawnRaised m\<close> and \<open>CommRaised m\<close>: the
  call raises an exception of class \<open>Exception\<close> whose text is \<open>m\<close>.
\<close>

datatype spawn_outcome = Spawned | SpawnRaised str

datatype comm_outcome = Completed bytes bytes int | CommTimedOut | CommRaised str

datatype grace_outcome = Exited | GraceTimedOut

record os_run =
  spawn_result :: spawn_outcome
  comm_result :: comm_outcome
  grace_result :: grace_outcome
  history_spawn_raises :: bool

text \<open>
  The steps of a call, in program order. \<open>CreateSubprocess\<close> is the attempt to create
  the command's process (program, arguments, working directory, environment),
  \<open>Communicate t\<close> the wait for its output under a timeout of \<open>t\<close> seconds, \<open>WaitExit n\<close>
  the wait of at most \<open>n\<close> seconds for a killed process to exit, \<open>CreateHistory\<close> the
  attempt to create the history process. \<open>Rendered r\<close> has no effect of its own: it marks
  the point where the result string \<open>r\<close> has been built.
\<close>

datatype event =
    CreateSubprocess str "str list" str "str \<rightharpoonup> str"
  | Communicate int
  | Kill
  | WaitExit nat
  | Rendered str
  | CreateHistory str "str list"

definition max_len :: nat where
  "max_len = 10000"

definition output_parts :: "env \<Rightarrow> bytes \<Rightarrow> bytes \<Rightarrow> int \<Rightarrow> str list" where
  "output_parts e stdout stderr returncode =
     (if stdout \<noteq> [] then [utf8_decode e stdout] else []) @
     (if stderr \<noteq> [] \<and> strip (utf8_decode e stderr) \<noteq> []
      then [py ''STDERR:'' @ nl @ utf8_decode e stderr] else []) @
     (if returncode \<noteq> 0 then [nl @ py ''Exit code: '' @ str_int returncode] else [])"

definition joined_result :: "str list \<Rightarrow> str" where
  "joined_result ps = (if ps \<noteq> [] then join nl ps else py ''(no output)'')"

definition truncate_result :: "str \<Rightarrow> str" where
  "truncate_result result =
     (if length result > max_len
      then take max_len result @ nl @ py ''... (truncated, '' @
           str_int (int (length result) - int max_len) @ py '' more chars)''
      else result)"

definition render :: "env \<Rightarrow> bytes \<Rightarrow> bytes \<Rightarrow> int \<Rightarrow> str" where
  "render e stdout stderr returncode =
     truncate_result (joined_result (output_parts e stdout stderr returncode))"

definition msg_timeout :: "config \<Rightarrow> str" where
  "msg_timeout cfg = py ''Error: Command timed out after '' @ str_int (timeout cfg) @ py '' seconds''"

definition msg_exception :: "str \<Rightarrow> str" where
  "msg_exception m = py ''Error executing command: '' @ m"

text \<open>
  \<open>_add_to_history\<close>: the steps it performs. The launch is attempted and not waited
  for; when it raises, the exception is swallowed, so both cases leave the same trace.
\<close>

definition add_to_history :: "config \<Rightarrow> os_run \<Rightarrow> str \<Rightarrow> event list" where
  "add_to_history cfg w command =
     (if \<not> sublist (py ''fish'') (shell cfg) then []
      else
        (let escaped_cmd = replace_squote (squote @ dquote @ squote @ dquote @ squote) command;
             launch = CreateHistory (shell cfg)
                        [py ''-c'', py ''history append '' @ squote @ escaped_cmd @ squote]
         in if history_spawn_raises w then [launch] else [launch]))"

definition choose_cwd :: "config \<Rightarrow> env \<Rightarrow> str option \<Rightarrow> str" where
  "choose_cwd cfg e working_dir_arg =
     (let fallback =
        (case working_dir cfg of
           Some d \<Rightarrow> if d \<noteq> [] then d else os_getcwd e
         | None \<Rightarrow> os_getcwd e)
      in case working_dir_arg of
           Some d \<Rightarrow> if d \<noteq> [] then d else fallback
         | None \<Rightarrow> fallback)"

definition spawn_env :: "config \<Rightarrow> env \<Rightarrow> str \<rightharpoonup> str" where
  "spawn_env cfg e =
     (if path_append cfg \<noteq> []
      then (os_environ e)(py ''PATH'' \<mapsto>
             (case os_environ e (py ''PATH'') of Some v \<Rightarrow> v | None \<Rightarrow> []) @
             os_pathsep e @ path_append cfg)
      else os_environ e)"

text \<open>
  The part of \<open>execute\<close> inside the \<open>try\<close> block. After a timeout the process is
  killed and awaited for at most 5 seconds; a timeout of that wait is passed over.
  \<open>process.kill()\<close> is taken to succeed.
\<close>

definition run_command :: "config \<Rightarrow> env \<Rightarrow> os_run \<Rightarrow> str \<Rightarrow> str \<Rightarrow> str \<times> event list" where
  "run_command cfg e w command cwd =
     (let create = CreateSubprocess (shell cfg) [py ''-c'', command] cwd (spawn_env cfg e) in
      case spawn_result w of
        SpawnRaised m \<Rightarrow> (msg_exception m, [create])
      | Spawned \<Rightarrow>
          (case comm_result w of
             CommRaised m \<Rightarrow> (msg_exception m, [create, Communicate (timeout cfg)])
           | CommTimedOut \<Rightarrow>
               (case grace_result w of
                  Exited \<Rightarrow>
                    (msg_timeout cfg, [create, Communicate (timeout cfg), Kill, WaitExit 5])
                | GraceTimedOut \<Rightarrow>
                    (msg_timeout cfg, [create, Communicate (timeout cfg), Kill, WaitExit 5]))
           | Completed stdout stderr returncode \<Rightarrow>
               (let result = render e stdout stderr returncode in
                (result,
                 [create, Communicate (timeout cfg), Rendered result] @
                 add_to_history cfg w command))))"

text \<open>
  \<open>execute\<close>: the value returned (or the exception raised) and the steps performed.
  \<open>if guard_error\<close> holds of a non-empty string.
\<close>

definition execute ::
  "config \<Rightarrow> env \<Rightarrow> os_run \<Rightarrow> str \<Rightarrow> str option \<Rightarrow> (exn + str) \<times> event list" where
  "execute cfg e w command working_dir_arg =
     (let cwd = choose_cwd cfg e working_dir_arg in
      case guard_command cfg e command cwd of
        Inl x \<Rightarrow> (Inl x, [])
      | Inr guard_error \<Rightarrow>
          (case guard_error of
             Some m \<Rightarrow>
               if m \<noteq> [] then (Inr m, [])
               else (let (r, tr) = run_command cfg e w command cwd in (Inr r, tr))
           | None \<Rightarrow> (let (r, tr) = run_command cfg e w command cwd in (Inr r, tr))))"





section \<open>Notions used to state the properties\<close>

text \<open>
  The stages of the guard, as predicates on a command: no deny pattern is found in the
  lower-cased trimmed text; the allow list is empty or one of its patterns is found; the
  text holds a parent-directory token.
\<close>

definition deny_passes :: "config \<Rightarrow> env \<Rightarrow> str \<Rightarrow> bool" where
  "deny_passes cfg e command \<longleftrightarrow>
     \<not> list_ex (\<lambda>p. re_search e p (str_lower e (strip command))) (deny_patterns cfg)"

definition allow_passes :: "config \<Rightarrow> env \<Rightarrow> str \<Rightarrow> bool" where
  "allow_passes cfg e command \<longleftrightarrow>
     allow_patterns cfg = [] \<or>
     list_ex (\<lambda>p. re_search e p (str_lower e (strip command))) (allow_patterns cfg)"

definition has_traversal :: "str \<Rightarrow> bool" where
  "has_traversal command \<longleftrightarrow> sublist (py ''../'') command \<or> sublist (py ''..'' @ bslash) command"

text \<open>
  A path is a descendant of a directory when it has the same anchor and the directory's
  components are a proper prefix of its own. An extracted path literal lies outside the
  workspace when it resolves to an absolute path that is neither the directory nor a
  descendant of it.
\<close>

definition is_descendant :: "ppath \<Rightarrow> ppath \<Rightarrow> bool" where
  "is_descendant c p \<longleftrightarrow>
     anchor p = anchor c \<and> is_absolute p = is_absolute c \<and> strict_prefix (parts c) (parts p)"

definition outside_workspace :: "env \<Rightarrow> ppath \<Rightarrow> str \<Rightarrow> bool" where
  "outside_workspace e c raw =
     (case path_resolve e (strip raw) of
        None \<Rightarrow> False
      | Some p \<Rightarrow> is_absolute p \<and> p \<noteq> c \<and> \<not> is_descendant c p)"

text \<open>
  What the guard is to extract, stated without the scanner. The characters that end a
  Windows path are whitespace, the quotes, \<open>|\<close>, \<open>>\<close>, \<open><\<close> and \<open>;\<close> (\<open>win_char\<close> are the
  others); those that end a POSIX path are whitespace, the quotes and \<open>>\<close> (\<open>posix_char\<close>
  are the others). \<open>win_begins t\<close>: the text \<open>t\<close> begins with a letter, a colon, a
  backslash and one character of the path. \<open>win_tiling s ms\<close>: \<open>ms\<close> are the Windows
  literals of \<open>s\<close> in order, that is, either no literal begins anywhere in \<open>s\<close> and \<open>ms\<close>
  is empty, or \<open>s\<close> is a gap in which no literal begins, then the first literal, taken
  as far as it goes, then a rest whose literals are the remaining ones. A literal that
  begins inside an earlier one is thus no literal of its own.
\<close>

definition win_begins :: "str \<Rightarrow> bool" where
  "win_begins t \<longleftrightarrow> (\<exists>c x rest. t = c # 58 # 92 # x # rest \<and> ascii_letter c \<and> win_char x)"

inductive win_tiling :: "str \<Rightarrow> str list \<Rightarrow> bool" where
  win_none: "\<forall>t. suffix t s \<longrightarrow> \<not> win_begins t \<Longrightarrow> win_tiling s []"
| win_hit:
    "\<forall>g2. suffix g2 g \<and> g2 \<noteq> [] \<longrightarrow> \<not> win_begins (g2 @ m @ r) \<Longrightarrow>
     m = c # 58 # 92 # run \<Longrightarrow> ascii_letter c \<Longrightarrow> run \<noteq> [] \<Longrightarrow>
     \<forall>x\<in>set run. win_char x \<Longrightarrow> r = [] \<or> \<not> win_char (hd r) \<Longrightarrow>
     win_tiling r ms \<Longrightarrow> win_tiling (g @ m @ r) (m # ms)"

text \<open>
  The same for POSIX literals. Away from the start of the text a literal stands right
  after a leading character: whitespace, a pipe or a redirect character, \<open>>\<close> or \<open><\<close>
  (\<open>lead_char\<close>, \<open>posix_begins\<close>, \<open>posix_tiling\<close>); the leading character is no part of
  the literal. At the start of the text a literal needs no leading character
  (\<open>posix_text_tiling\<close>).
\<close>

definition lead_char :: "nat \<Rightarrow> bool" where
  "lead_char c \<longleftrightarrow> is_space c \<or> c = 124 \<or> c = 62 \<or> c = 60"

definition posix_begins :: "str \<Rightarrow> bool" where
  "posix_begins t \<longleftrightarrow> (\<exists>l x rest. t = l # 47 # x # rest \<and> lead_char l \<and> posix_char x)"

inductive posix_tiling :: "str \<Rightarrow> str list \<Rightarrow> bool" where
  posix_none: "\<forall>t. suffix t s \<longrightarrow> \<not> posix_begins t \<Longrightarrow> posix_tiling s []"
| posix_hit:
    "\<forall>g2. suffix g2 g \<and> g2 \<noteq> [] \<longrightarrow> \<not> posix_begins (g2 @ l # m @ r) \<Longrightarrow>
     lead_char l \<Longrightarrow> m = 47 # run \<Longrightarrow> run \<noteq> [] \<Longrightarrow>
     \<forall>x\<in>set run. posix_char x \<Longrightarrow> r = [] \<or> \<not> posix_char (hd r) \<Longrightarrow>
     posix_tiling r ms \<Longrightarrow> posix_tiling (g @ l # m @ r) (m # ms)"

definition posix_text_tiling :: "str \<Rightarrow> str list \<Rightarrow> bool" where
  "posix_text_tiling s ms \<longleftrightarrow>
     (\<exists>run r ms'. s = (47 # run) @ r \<and> run \<noteq> [] \<and> (\<forall>x\<in>set run. posix_char x) \<and>
        (r = [] \<or> \<not> posix_char (hd r)) \<and> ms = (47 # run) # ms' \<and> posix_tiling r ms') \<or>
     (\<not> (\<exists>x rest. s = 47 # x # rest \<and> posix_char x) \<and> posix_tiling s ms)"

text \<open>A slash stands right after \<open><\<close> somewhere in the command.\<close>

definition slash_after_less :: "str \<Rightarrow> bool" where
  "slash_after_less command \<longleftrightarrow> sublist (py ''</'') command"

text \<open>
  The number a string of decimal digits denotes, to read back what \<open>str\<close> printed.
\<close>

definition dec_value :: "str \<Rightarrow> nat" where
  "dec_value ds = foldl (\<lambda>a d. 10 * a + (d - 48)) 0 ds"

text \<open>Steps that launch the history process, and runs whose command completed.\<close>

fun is_history :: "event \<Rightarrow> bool" where
  "is_history (CreateHistory sh args) = True"
| "is_history ev = False"

fun completed :: "comm_outcome \<Rightarrow> bool" where
  "completed (Completed stdout stderr returncode) = True"
| "completed c = False"

section \<open>A sample environment\<close>

text \<open>
  A concrete environment on which the theorems are instantiated: patterns without
  metacharacters, which match literally; ASCII lower-casing; a file system without
  links, in which a POSIX path resolves to its components (relative to \<open>/tmp/work\<close>
  when it is not absolute) and a path with a NUL character raises; bytes decoded as
  Latin-1 code points, which is UTF-8 on ASCII bytes; \<open>fish\<close> installed as
  \<open>/usr/bin/fish\<close>. The sample run lets the 5-second wait time out and the history
  launch raise.
\<close>

definition ascii_lower :: "str \<Rightarrow> str" where
  "ascii_lower s = map (\<lambda>c. if 65 \<le> c \<and> c \<le> 90 then c + 32 else c) s"

fun split_slash :: "str \<Rightarrow> str list" where
  "split_slash [] = [[]]"
| "split_slash (c # cs) =
     (if c = 47 then [] # split_slash cs
      else (case split_slash cs of x # xs \<Rightarrow> (c # x) # xs | [] \<Rightarrow> [[c]]))"

definition components :: "str \<Rightarrow> str list" where
  "components s = filter (\<lambda>x. x \<noteq> []) (split_slash s)"

definition sample_resolve :: "str \<Rightarrow> ppath option" where
  "sample_resolve x =
     (if 0 \<in> set x then None
      else Some (PPath [47] True
        (components (case x of
                       c # cs \<Rightarrow> if c = 47 then x else py ''/tmp/work/'' @ x
                     | [] \<Rightarrow> py ''/tmp/work''))))"

definition sample_env :: env where
  "sample_env =
     \<lparr> re_match_at = (\<lambda>p s i. prefix p (drop i s)),
       str_lower = ascii_lower,
       os_getcwd = py ''/tmp/work'',
       path_resolve = sample_resolve,
       os_environ = Map.empty,
       os_pathsep = py '':'',
       shutil_which = (\<lambda>s. if s = py ''fish'' then Some (py ''/usr/bin/fish'') else None),
       utf8_decode = map unat \<rparr>"

definition sample_config :: "str list \<Rightarrow> str list \<Rightarrow> bool \<Rightarrow> config" where
  "sample_config deny allow restrict =
     \<lparr> timeout = 60, working_dir = Some (py ''/tmp/work''), deny_patterns = deny,
       allow_patterns = allow, restrict_to_workspace = restrict, path_append = [],
       shell = py ''/usr/bin/fish'' \<rparr>"

definition sample_run :: "spawn_outcome \<Rightarrow> comm_outcome \<Rightarrow> os_run" where
  "sample_run sp c =
     \<lparr> spawn_result = sp, comm_result = c, grace_result = GraceTimedOut,
       history_spawn_raises = True \<rparr>"


text \<open>
  The sample environment with a matcher that knows one fact about \<open>re\<close>: the built-in
  pattern \<open>\b(shutdown|reboot|poweroff)\b\<close> matches the text \<open>reboot\<close> at offset 0.
\<close>

definition reboot_env :: env where
  "reboot_env =
     sample_env\<lparr> re_match_at :=
       (\<lambda>p s i. p = bslash @ py ''b(shutdown|reboot|poweroff)'' @ bslash @ py ''b'' \<and>
                  s = py ''reboot'' \<and> i = 0) \<rparr>"

section \<open>Auxiliary facts\<close>

lemma sublist_skip_left:
  assumes "sublist t (a @ r)" and "t \<noteq> []" and "\<forall>c\<in>set a. P c" and "\<forall>c\<in>set t. \<not> P c"
  shows "sublist t r"
  using assms
proof (induction a)
  case Nil
  then show ?case by simp
next
  case (Cons x a)
  from Cons.prems(1) have "prefix t (x # a @ r) \<or> sublist t (a @ r)"
    by (simp add: sublist_Cons_right)
  moreover have "\<not> prefix t (x # a @ r)"
  proof
    assume "prefix t (x # a @ r)"
    with Cons.prems(2) obtain t' where "t = x # t'"
      by (cases t) auto
    with Cons.prems(3,4) show False by auto
  qed
  ultimately show ?case using Cons by auto
qed

lemma sublist_dropWhile_iff:
  assumes "t \<noteq> []" and "\<forall>c\<in>set t. \<not> P c"
  shows "sublist t (dropWhile P s) \<longleftrightarrow> sublist t s"
proof
  assume "sublist t (dropWhile P s)"
  then show "sublist t s"
    by (meson sublist_dropWhile sublist_order.order_trans)
next
  assume "sublist t s"
  then have "sublist t (takeWhile P s @ dropWhile P s)" by simp
  then show "sublist t (dropWhile P s)"
    by (rule sublist_skip_left [OF _ assms(1) _ assms(2)]) (auto dest: set_takeWhileD)
qed

lemma sublist_strip_iff:
  assumes "t \<noteq> []" and "\<forall>c\<in>set t. \<not> is_space c"
  shows "sublist t (strip s) \<longleftrightarrow> sublist t s"
proof -
  have r: "rev t \<noteq> []" "\<forall>c\<in>set (rev t). \<not> is_space c"
    using assms by auto
  have "sublist t (strip s) \<longleftrightarrow> sublist (rev t) (dropWhile is_space (rev (dropWhile is_space s)))"
    by (simp add: strip_def sublist_rev_right)
  also have "\<dots> \<longleftrightarrow> sublist (rev t) (rev (dropWhile is_space s))"
    using r by (rule sublist_dropWhile_iff)
  also have "\<dots> \<longleftrightarrow> sublist t (dropWhile is_space s)"
    by simp
  also have "\<dots> \<longleftrightarrow> sublist t s"
    using assms by (rule sublist_dropWhile_iff)
  finally show ?thesis .
qed

lemma traversal_strip:
  "sublist (py ''../'') (strip s) \<longleftrightarrow> sublist (py ''../'') s"
  "sublist (py ''..'' @ bslash) (strip s) \<longleftrightarrow> sublist (py ''..'' @ bslash) s"
  by (rule sublist_strip_iff, simp add: py_def, simp add: py_def is_space_def)
     (rule sublist_strip_iff, simp add: py_def bslash_def, simp add: py_def bslash_def is_space_def)

lemma parents_iff:
  "c \<in> set (parents p) \<longleftrightarrow>
     anchor c = anchor p \<and> is_absolute c = is_absolute p \<and> strict_prefix (parts c) (parts p)"
proof
  assume "c \<in> set (parents p)"
  then obtain k where k: "k < length (parts p)" "c = PPath (anchor p) (is_absolute p) (take k (parts p))"
    by (auto simp: parents_def)
  then have "prefix (parts c) (parts p)" "length (parts c) < length (parts p)"
    by (auto simp: take_is_prefix)
  then show "anchor c = anchor p \<and> is_absolute c = is_absolute p \<and> strict_prefix (parts c) (parts p)"
    using k by (auto simp: strict_prefix_def)
next
  assume a: "anchor c = anchor p \<and> is_absolute c = is_absolute p \<and> strict_prefix (parts c) (parts p)"
  then obtain zs where zs: "parts p = parts c @ zs" "zs \<noteq> []"
    by (auto simp: strict_prefix_def prefix_def)
  then have "length (parts c) < length (parts p)" "take (length (parts c)) (parts p) = parts c"
    by auto
  moreover have "c = PPath (anchor c) (is_absolute c) (parts c)" by simp
  ultimately show "c \<in> set (parents p)"
    unfolding parents_def using a by (auto simp: image_iff intro!: bexI [of _ "length (parts c)"])
qed

lemma deny_loop_Some:
  "deny_loop e ps l = Some m \<longleftrightarrow> m = msg_dangerous \<and> (\<exists>p\<in>set ps. re_search e p l)"
  by (induction ps) auto

lemma deny_loop_None: "deny_loop e ps l = None \<longleftrightarrow> (\<forall>p\<in>set ps. \<not> re_search e p l)"
  by (induction ps) auto

lemma re_search_iff: "re_search e p s \<longleftrightarrow> (\<exists>i\<le>length s. re_match_at e p s i)"
proof -
  have "set [0..<Suc (length s)] = {i. i \<le> length s}"
    by auto
  then show ?thesis
    unfolding re_search_def list_ex_iff by blast
qed

lemma msgs_nonempty:
  "msg_dangerous \<noteq> []" "msg_not_allowed \<noteq> []" "msg_traversal \<noteq> []" "msg_outside \<noteq> []"
  by (simp_all add: msg_dangerous_def msg_not_allowed_def msg_traversal_def msg_outside_def py_def)

lemma msgs_distinct:
  "msg_dangerous \<noteq> msg_not_allowed" "msg_dangerous \<noteq> msg_traversal" "msg_dangerous \<noteq> msg_outside"
  "msg_not_allowed \<noteq> msg_traversal" "msg_not_allowed \<noteq> msg_outside" "msg_traversal \<noteq> msg_outside"
  "msg_not_allowed \<noteq> msg_dangerous" "msg_traversal \<noteq> msg_dangerous" "msg_outside \<noteq> msg_dangerous"
  "msg_traversal \<noteq> msg_not_allowed" "msg_outside \<noteq> msg_not_allowed" "msg_outside \<noteq> msg_traversal"
  by (simp_all add: msg_dangerous_def msg_not_allowed_def msg_traversal_def msg_outside_def py_def)


lemma path_loop_Some:
  "path_loop e c raws = Some m \<longleftrightarrow> m = msg_outside \<and> (\<exists>raw\<in>set raws. outside_workspace e c raw)"
  by (induction raws) (auto simp: outside_workspace_def parents_iff is_descendant_def split: option.splits)

lemma path_loop_None:
  "path_loop e c raws = None \<longleftrightarrow> (\<forall>raw\<in>set raws. \<not> outside_workspace e c raw)"
  by (induction raws) (auto simp: outside_workspace_def parents_iff is_descendant_def split: option.splits)

lemma guard_deny:
  "\<not> deny_passes cfg e command \<Longrightarrow> guard_command cfg e command cwd = Inr (Some msg_dangerous)"
  by (auto simp: guard_command_def Let_def deny_passes_def list_ex_iff deny_loop_Some deny_loop_None
      split: option.splits)

lemma guard_allow:
  "deny_passes cfg e command \<Longrightarrow> \<not> allow_passes cfg e command \<Longrightarrow>
   guard_command cfg e command cwd = Inr (Some msg_not_allowed)"
  by (auto simp: guard_command_def Let_def deny_passes_def allow_passes_def list_ex_iff
      deny_loop_Some deny_loop_None split: option.splits)

lemma guard_workspace:
  "deny_passes cfg e command \<Longrightarrow> allow_passes cfg e command \<Longrightarrow>
   guard_command cfg e command cwd =
     (if restrict_to_workspace cfg
      then if has_traversal command then Inr (Some msg_traversal)
           else (case path_resolve e cwd of
                   None \<Rightarrow> Inl ResolveRaised
                 | Some cwd_path \<Rightarrow>
                     Inr (path_loop e cwd_path (extract_absolute_paths (strip command))))
      else Inr None)"
  by (auto simp: guard_command_def Let_def deny_passes_def allow_passes_def has_traversal_def
      traversal_strip list_ex_iff deny_loop_Some deny_loop_None split: option.splits)

lemma execute_blocked:
  "guard_command cfg e command (choose_cwd cfg e wd) = Inr (Some m) \<Longrightarrow> m \<noteq> [] \<Longrightarrow>
   execute cfg e w command wd = (Inr m, [])"
  by (simp add: execute_def Let_def)

lemma execute_allowed:
  "guard_command cfg e command (choose_cwd cfg e wd) = Inr None \<Longrightarrow>
   execute cfg e w command wd =
     (Inr (fst (run_command cfg e w command (choose_cwd cfg e wd))),
      snd (run_command cfg e w command (choose_cwd cfg e wd)))"
  by (simp add: execute_def Let_def split: prod.splits)

lemma execute_raised:
  "guard_command cfg e command (choose_cwd cfg e wd) = Inl x \<Longrightarrow>
   execute cfg e w command wd = (Inl x, [])"
  by (simp add: execute_def Let_def)

lemma deny_blocks:
  assumes "p \<in> set (deny_patterns cfg)"
    and "i \<le> length (str_lower e (strip command))"
    and "re_match_at e p (str_lower e (strip command)) i"
  shows "execute cfg e w command wd = (Inr msg_dangerous, [])"
proof -
  have "\<not> deny_passes cfg e command"
    using assms by (auto simp: deny_passes_def list_ex_iff re_search_iff)
  then show ?thesis
    by (simp add: guard_deny execute_blocked msgs_nonempty)
qed

section \<open>The deny list\<close>



section \<open>The allow list\<close>

lemmas sample_simps = sample_config_def sample_env_def ascii_lower_def strip_def is_space_def py_def
  deny_passes_def allow_passes_def re_search_def has_traversal_def bslash_def sublist_code

text \<open>
  C5. For a command that no deny pattern blocks: when the allow list is non-empty and
  none of its patterns is found in the lower-cased trimmed text, the guard answers with
  the not-in-allowlist message and \<open>execute\<close> returns it without performing any step;
  when the allow list is empty or one of its patterns is found, the guard does not
  answer with that message and decides exactly as it would with an empty allow list.
\<close>

theorem allow_check:
  assumes "deny_passes cfg e command"
  shows "(allow_patterns cfg \<noteq> [] \<and>
          (\<forall>p\<in>set (allow_patterns cfg). \<not> re_search e p (str_lower e (strip command))) \<longrightarrow>
            guard_command cfg e command cwd = Inr (Some msg_not_allowed) \<and>
            execute cfg e w command wd = (Inr msg_not_allowed, [])) \<and>
         (allow_patterns cfg = [] \<or>
          (\<exists>p\<in>set (allow_patterns cfg). re_search e p (str_lower e (strip command))) \<longrightarrow>
            guard_command cfg e command cwd \<noteq> Inr (Some msg_not_allowed) \<and>
            guard_command cfg e command cwd =
              guard_command (cfg\<lparr>allow_patterns := []\<rparr>) e command cwd)"
proof (intro conjI impI)
  assume a: "allow_patterns cfg \<noteq> [] \<and>
          (\<forall>p\<in>set (allow_patterns cfg). \<not> re_search e p (str_lower e (strip command)))"
  then have na: "\<not> allow_passes cfg e command"
    by (auto simp: allow_passes_def list_ex_iff)
  show "guard_command cfg e command cwd = Inr (Some msg_not_allowed)"
    using assms na by (rule guard_allow)
  show "execute cfg e w command wd = (Inr msg_not_allowed, [])"
    using guard_allow [OF assms na] by (simp add: execute_blocked msgs_nonempty)
next
  assume "allow_patterns cfg = [] \<or>
          (\<exists>p\<in>set (allow_patterns cfg). re_search e p (str_lower e (strip command)))"
  then have ap: "allow_passes cfg e command"
    by (auto simp: allow_passes_def list_ex_iff)
  have d': "deny_passes (cfg\<lparr>allow_patterns := []\<rparr>) e command"
    using assms by (simp add: deny_passes_def)
  have a': "allow_passes (cfg\<lparr>allow_patterns := []\<rparr>) e command"
    by (simp add: allow_passes_def)
  show "guard_command cfg e command cwd \<noteq> Inr (Some msg_not_allowed)"
    by (auto simp: guard_workspace [OF assms ap] path_loop_Some msgs_distinct split: option.splits)
  show "guard_command cfg e command cwd = guard_command (cfg\<lparr>allow_patterns := []\<rparr>) e command cwd"
    by (simp add: guard_workspace [OF assms ap] guard_workspace [OF d' a'])
qed

theorem allow_check_witness:
  "execute (sample_config [py ''sudo''] [py ''git '', py ''ls''] False) sample_env
     (sample_run Spawned (Completed [] [] 0)) (py ''cat notes.txt'') None =
     (Inr msg_not_allowed, []) \<and>
   guard_command (sample_config [py ''sudo''] [py ''git '', py ''ls''] False) sample_env
     (py ''git status'') (py ''/tmp/work'') = Inr None"
proof -
  let ?cfg = "sample_config [py ''sudo''] [py ''git '', py ''ls''] False"
  have d1: "deny_passes ?cfg sample_env (py ''cat notes.txt'')"
    by (simp add: sample_simps)
  have d2: "deny_passes ?cfg sample_env (py ''git status'')"
    by (simp add: sample_simps)
  have n1: "allow_patterns ?cfg \<noteq> [] \<and>
      (\<forall>p\<in>set (allow_patterns ?cfg). \<not> re_search sample_env p (str_lower sample_env (strip (py ''cat notes.txt''))))"
    by (simp add: sample_simps)
  have n2: "allow_patterns ?cfg = [] \<or>
      (\<exists>p\<in>set (allow_patterns ?cfg). re_search sample_env p (str_lower sample_env (strip (py ''git status''))))"
    by (simp add: sample_simps)
  have g: "guard_command (?cfg\<lparr>allow_patterns := []\<rparr>) sample_env (py ''git status'') (py ''/tmp/work'') = Inr None"
    by (simp add: guard_command_def Let_def sample_simps)
  from allow_check [OF d1, of "py ''/tmp/work''" "sample_run Spawned (Completed [] [] 0)" None] n1
  have "execute ?cfg sample_env (sample_run Spawned (Completed [] [] 0)) (py ''cat notes.txt'') None =
     (Inr msg_not_allowed, [])" by blast
  moreover from allow_check [OF d2, of "py ''/tmp/work''" "sample_run Spawned (Completed [] [] 0)" None] n2 g
  have "guard_command ?cfg sample_env (py ''git status'') (py ''/tmp/work'') = Inr None" by simp
  ultimately show ?thesis by simp
qed

section \<open>Workspace confinement\<close>

text \<open>
  C6. With \<open>restrict_to_workspace\<close> set, a command that passes the deny and the allow
  stage and whose raw text holds \<open>../\<close> or \<open>..\\<close> is blocked with the path-traversal
  message and no step is performed. The token is sought in the text as given (trimming
  cannot remove it, and lower-casing is not applied), and nothing is assumed about
  absolute paths in the command or about the file system.
\<close>

theorem traversal_blocks:
  assumes "restrict_to_workspace cfg" and "deny_passes cfg e command" and "allow_passes cfg e command"
    and "sublist (py ''../'') command \<or> sublist (py ''..'' @ bslash) command"
  shows "guard_command cfg e command cwd = Inr (Some msg_traversal) \<and>
         execute cfg e w command wd = (Inr msg_traversal, [])"
proof -
  have g: "guard_command cfg e command cwd = Inr (Some msg_traversal)" for cwd
    using assms by (simp add: guard_workspace has_traversal_def)
  then show ?thesis
    by (simp add: execute_blocked msgs_nonempty)
qed

theorem traversal_blocks_witness:
  "execute (sample_config [py ''sudo''] [] True) sample_env
     (sample_run Spawned (Completed [] [] 0)) (py ''cat /tmp/work/a/../../../etc/passwd'') None =
     (Inr msg_traversal, [])"
proof -
  let ?cfg = "sample_config [py ''sudo''] [] True"
  let ?c = "py ''cat /tmp/work/a/../../../etc/passwd''"
  have "restrict_to_workspace ?cfg" by (simp add: sample_config_def)
  moreover have "deny_passes ?cfg sample_env ?c" by (simp add: sample_simps)
  moreover have "allow_passes ?cfg sample_env ?c" by (simp add: sample_simps)
  moreover have "sublist (py ''../'') ?c \<or> sublist (py ''..'' @ bslash) ?c" by (simp add: sample_simps)
  ultimately show ?thesis
    using traversal_blocks [of ?cfg sample_env ?c "py ''/tmp/work''" "sample_run Spawned (Completed [] [] 0)" None]
    by blast
qed

subsection \<open>The extracted path literals\<close>

lemma take2_iff: "take 2 cs = [a, b] \<longleftrightarrow> (\<exists>rest. cs = a # b # rest)"
proof (cases cs)
  case Nil
  then show ?thesis by simp
next
  case (Cons x xs)
  then show ?thesis by (cases xs) (auto simp: numeral_2_eq_2)
qed

lemma run_split:
  "rest = takeWhile P rest @ dropWhile P rest \<and> (\<forall>x\<in>set (takeWhile P rest). P x) \<and>
   (dropWhile P rest = [] \<or> \<not> P (hd (dropWhile P rest)))"
  using hd_dropWhile [of P rest] by (auto dest: set_takeWhileD)

lemma win_cond_iff:
  "ascii_letter c \<and> take 2 cs = [58, 92] \<and> takeWhile win_char (drop 2 cs) \<noteq> [] \<longleftrightarrow>
   win_begins (c # cs)"
proof -
  have "takeWhile win_char rest \<noteq> [] \<longleftrightarrow> (\<exists>x r. rest = x # r \<and> win_char x)" for rest
    by (cases rest) auto
  then show ?thesis
    unfolding win_begins_def take2_iff by auto
qed

lemma win_paths_skip:
  assumes "\<not> win_begins (c # cs)"
  shows "win_paths (c # cs) = win_paths cs"
proof -
  have "\<not> (ascii_letter c \<and> take 2 cs = [58, 92] \<and> takeWhile win_char (drop 2 cs) \<noteq> [])"
    using assms unfolding win_cond_iff .
  then show ?thesis
    unfolding win_paths.simps by (rule if_not_P)
qed

lemma win_paths_take:
  assumes "win_begins (c # cs)"
  shows "win_paths (c # cs) =
    (c # 58 # 92 # takeWhile win_char (drop 2 cs)) # win_paths (dropWhile win_char (drop 2 cs))"
proof -
  have "ascii_letter c \<and> take 2 cs = [58, 92] \<and> takeWhile win_char (drop 2 cs) \<noteq> []"
    using assms unfolding win_cond_iff .
  then show ?thesis
    unfolding win_paths.simps by (rule if_P)
qed

lemma run_takeWhile:
  assumes "\<forall>x\<in>set run. P x" and "r = [] \<or> \<not> P (hd r)"
  shows "takeWhile P (run @ r) = run" and "dropWhile P (run @ r) = r"
proof -
  have t: "takeWhile P r = []" and d: "dropWhile P r = r"
    using assms(2) by (cases r; simp)+
  show "takeWhile P (run @ r) = run"
    using assms(1) t by (simp add: takeWhile_append2)
  show "dropWhile P (run @ r) = r"
    using assms(1) d by (simp add: dropWhile_append2)
qed

lemma win_paths_literal:
  assumes "ascii_letter c" and "run \<noteq> []" and "\<forall>x\<in>set run. win_char x"
    and "r = [] \<or> \<not> win_char (hd r)"
  shows "win_paths ((c # 58 # 92 # run) @ r) = (c # 58 # 92 # run) # win_paths r"
  using assms run_takeWhile [of run win_char r] by simp

lemma win_paths_gap:
  assumes "\<forall>g2. suffix g2 g \<and> g2 \<noteq> [] \<longrightarrow> \<not> win_begins (g2 @ t)"
  shows "win_paths (g @ t) = win_paths t"
  using assms
proof (induction g)
  case Nil
  then show ?case by simp
next
  case (Cons x g)
  have "\<not> win_begins ((x # g) @ t)"
    using Cons.prems by blast
  then have "win_paths ((x # g) @ t) = win_paths (g @ t)"
    unfolding append_Cons by (rule win_paths_skip)
  moreover have "\<forall>g2. suffix g2 g \<and> g2 \<noteq> [] \<longrightarrow> \<not> win_begins (g2 @ t)"
    using Cons.prems by (meson suffix_ConsI)
  ultimately show ?case
    using Cons.IH by simp
qed

lemma win_paths_none:
  assumes "\<forall>t. suffix t s \<longrightarrow> \<not> win_begins t"
  shows "win_paths s = []"
proof -
  have "\<forall>g2. suffix g2 s \<and> g2 \<noteq> [] \<longrightarrow> \<not> win_begins (g2 @ [])"
    using assms by simp
  then have "win_paths (s @ []) = win_paths []"
    by (rule win_paths_gap)
  then show ?thesis by simp
qed

lemma win_tiling_unique: "win_tiling s ms \<Longrightarrow> ms = win_paths s"
proof (induction rule: win_tiling.induct)
  case (win_none s)
  then show ?case by (simp add: win_paths_none)
next
  case (win_hit g m r c run ms)
  have "win_paths (g @ m @ r) = win_paths (m @ r)"
    using win_hit.hyps(1) by (rule win_paths_gap)
  also have "\<dots> = m # win_paths r"
    unfolding win_hit.hyps(2) using win_hit.hyps(3-6) by (rule win_paths_literal)
  finally show ?case
    using win_hit.IH by simp
qed

lemma win_tiling_skip:
  assumes "\<not> win_begins (c # cs)" and "win_tiling cs ms"
  shows "win_tiling (c # cs) ms"
  using assms(2)
proof (cases rule: win_tiling.cases)
  case win_none
  have "\<forall>t. suffix t (c # cs) \<longrightarrow> \<not> win_begins t"
    using win_none(2) assms(1) by (auto simp: suffix_Cons)
  then show ?thesis
    unfolding win_none(1) by (rule win_tiling.win_none)
next
  case (win_hit g m r c' run ms')
  have "\<forall>g2. suffix g2 (c # g) \<and> g2 \<noteq> [] \<longrightarrow> \<not> win_begins (g2 @ m @ r)"
    using win_hit(3) assms(1) win_hit(1) by (auto simp: suffix_Cons)
  then have "win_tiling ((c # g) @ m @ r) (m # ms')"
    using win_hit(4-9) by (rule win_tiling.win_hit)
  then show ?thesis
    using win_hit(1,2) by simp
qed

lemma win_tiling_exists: "win_tiling s (win_paths s)"
proof (induction s rule: length_induct)
  case (1 s)
  show ?case
  proof (cases s)
    case Nil
    have "\<forall>t. suffix t ([]::str) \<longrightarrow> \<not> win_begins t"
      by (simp add: win_begins_def)
    then show ?thesis
      unfolding Nil by (simp add: win_tiling.win_none)
  next
    case (Cons c cs)
    show ?thesis
    proof (cases "win_begins (c # cs)")
      case False
      have "win_tiling cs (win_paths cs)"
        using 1 Cons by simp
      then have "win_tiling (c # cs) (win_paths cs)"
        using False by (rule win_tiling_skip [rotated])
      then show ?thesis
        unfolding Cons win_paths_skip [OF False] .
    next
      case True
      then obtain x rest where cs: "cs = 58 # 92 # x # rest" and l: "ascii_letter c" and x: "win_char x"
        unfolding win_begins_def by auto
      let ?run = "takeWhile win_char (x # rest)"
      let ?r = "dropWhile win_char (x # rest)"
      have sp: "x # rest = ?run @ ?r" and all: "\<forall>y\<in>set ?run. win_char y"
        and stop: "?r = [] \<or> \<not> win_char (hd ?r)"
        using run_split [of "x # rest" win_char] by blast+
      have ne: "?run \<noteq> []" using x by simp
      have "length ?r < length s"
        unfolding Cons cs using length_dropWhile_le [of win_char "x # rest"] by simp
      then have ih: "win_tiling ?r (win_paths ?r)"
        using 1 by blast
      have "\<forall>g2. suffix g2 ([]::str) \<and> g2 \<noteq> [] \<longrightarrow> \<not> win_begins (g2 @ (c # 58 # 92 # ?run) @ ?r)"
        by simp
      then have "win_tiling ([] @ (c # 58 # 92 # ?run) @ ?r) ((c # 58 # 92 # ?run) # win_paths ?r)"
        using refl l ne all stop ih by (rule win_tiling.win_hit)
      moreover have "[] @ (c # 58 # 92 # ?run) @ ?r = s"
        unfolding Cons cs using sp by simp
      moreover have "win_paths s = (c # 58 # 92 # ?run) # win_paths ?r"
        unfolding Cons using win_paths_take [OF True] unfolding cs by simp
      ultimately show ?thesis by simp
    qed
  qed
qed

lemma win_tiling_iff: "win_tiling s ms \<longleftrightarrow> ms = win_paths s"
  using win_tiling_unique win_tiling_exists by blast

lemma no_less_slash_suffix:
  assumes "\<not> sublist [60, 47] s" and "suffix t s"
  shows "\<not> sublist [60, 47] t"
  using assms by (meson sublist_order.order_trans suffix_imp_sublist)

lemma posix_cond_iff:
  assumes "\<not> sublist [60, 47] (c # cs)"
  shows "posix_lead c \<and> take 1 cs = [47] \<and> takeWhile posix_char (drop 1 cs) \<noteq> [] \<longleftrightarrow>
   posix_begins (c # cs)"
proof -
  have t: "takeWhile posix_char rest \<noteq> [] \<longleftrightarrow> (\<exists>x r. rest = x # r \<and> posix_char x)" for rest
    by (cases rest) auto
  have s: "take 1 cs = [47] \<longleftrightarrow> (\<exists>rest. cs = 47 # rest)"
    by (cases cs) auto
  have "\<not> prefix [60, 47] (c # cs)"
    using assms by (meson prefix_imp_sublist)
  then have l: "cs = 47 # rest \<Longrightarrow> lead_char c \<longleftrightarrow> posix_lead c" for rest
    by (auto simp: lead_char_def posix_lead_def)
  show ?thesis
    unfolding posix_begins_def using t s l by auto
qed

lemma posix_scan_skip:
  assumes "\<not> sublist [60, 47] (c # cs)" and "\<not> posix_begins (c # cs)"
  shows "posix_scan (c # cs) = posix_scan cs"
proof -
  have "\<not> (posix_lead c \<and> take 1 cs = [47] \<and> takeWhile posix_char (drop 1 cs) \<noteq> [])"
    using assms(2) unfolding posix_cond_iff [OF assms(1)] .
  then show ?thesis
    unfolding posix_scan.simps by (rule if_not_P)
qed

lemma posix_scan_take:
  assumes "\<not> sublist [60, 47] (c # cs)" and "posix_begins (c # cs)"
  shows "posix_scan (c # cs) =
    (47 # takeWhile posix_char (drop 1 cs)) # posix_scan (dropWhile posix_char (drop 1 cs))"
proof -
  have "posix_lead c \<and> take 1 cs = [47] \<and> takeWhile posix_char (drop 1 cs) \<noteq> []"
    using assms(2) unfolding posix_cond_iff [OF assms(1)] .
  then show ?thesis
    unfolding posix_scan.simps by (rule if_P)
qed

lemma posix_scan_literal:
  assumes "posix_lead l" and "run \<noteq> []" and "\<forall>x\<in>set run. posix_char x"
    and "r = [] \<or> \<not> posix_char (hd r)"
  shows "posix_scan (l # (47 # run) @ r) = (47 # run) # posix_scan r"
  using assms run_takeWhile [of run posix_char r] by simp

lemma posix_scan_gap:
  assumes "\<not> sublist [60, 47] (g @ t)"
    and "\<forall>g2. suffix g2 g \<and> g2 \<noteq> [] \<longrightarrow> \<not> posix_begins (g2 @ t)"
  shows "posix_scan (g @ t) = posix_scan t"
  using assms
proof (induction g)
  case Nil
  then show ?case by simp
next
  case (Cons x g)
  have "\<not> posix_begins (x # g @ t)"
    using Cons.prems(2) by (metis append_Cons list.distinct(1) suffix_order.order_refl)
  moreover have n: "\<not> sublist [60, 47] (x # g @ t)"
    using Cons.prems(1) by simp
  ultimately have "posix_scan (x # g @ t) = posix_scan (g @ t)"
    by (rule posix_scan_skip [rotated])
  moreover have "\<forall>g2. suffix g2 g \<and> g2 \<noteq> [] \<longrightarrow> \<not> posix_begins (g2 @ t)"
    using Cons.prems(2) by (meson suffix_ConsI)
  moreover have "\<not> sublist [60, 47] (g @ t)"
    using n by (rule no_less_slash_suffix) (simp add: suffix_Cons)
  ultimately show ?case
    using Cons.IH by simp
qed

lemma posix_scan_none:
  assumes "\<not> sublist [60, 47] s" and "\<forall>t. suffix t s \<longrightarrow> \<not> posix_begins t"
  shows "posix_scan s = []"
proof -
  have "\<forall>g2. suffix g2 s \<and> g2 \<noteq> [] \<longrightarrow> \<not> posix_begins (g2 @ [])"
    using assms(2) by simp
  moreover have "\<not> sublist [60, 47] (s @ [])"
    using assms(1) by simp
  ultimately have "posix_scan (s @ []) = posix_scan []"
    by (rule posix_scan_gap [rotated])
  then show ?thesis by simp
qed

lemma lead_char_cases:
  assumes "lead_char l" and "\<not> sublist [60, 47] (g @ l # 47 # t)"
  shows "posix_lead l"
proof -
  have "l \<noteq> 60"
  proof
    assume "l = 60"
    then have "g @ l # 47 # t = g @ [60, 47] @ t" by simp
    then have "sublist [60, 47] (g @ l # 47 # t)"
      unfolding sublist_def by blast
    with assms(2) show False by simp
  qed
  with assms(1) show ?thesis
    by (auto simp: lead_char_def posix_lead_def)
qed

lemma posix_tiling_unique:
  "posix_tiling s ms \<Longrightarrow> \<not> sublist [60, 47] s \<Longrightarrow> ms = posix_scan s"
proof (induction rule: posix_tiling.induct)
  case (posix_none s)
  then show ?case by (simp add: posix_scan_none)
next
  case (posix_hit g l m r run ms)
  have n: "\<not> sublist [60, 47] (g @ l # m @ r)"
    using posix_hit.prems .
  have l: "posix_lead l"
    using posix_hit.hyps(2) n unfolding posix_hit.hyps(3) by (simp add: lead_char_cases)
  have "suffix r (g @ l # m @ r)"
    by (metis append_Cons append_assoc suffixI)
  then have nr: "\<not> sublist [60, 47] r"
    using n by (rule no_less_slash_suffix [rotated])
  have "posix_scan (g @ l # m @ r) = posix_scan (l # m @ r)"
    using n posix_hit.hyps(1) by (rule posix_scan_gap)
  also have "\<dots> = m # posix_scan r"
    unfolding posix_hit.hyps(3) using l posix_hit.hyps(4-6) by (rule posix_scan_literal)
  finally show ?case
    using posix_hit.IH nr by simp
qed

lemma posix_tiling_skip:
  assumes "\<not> posix_begins (c # cs)" and "posix_tiling cs ms"
  shows "posix_tiling (c # cs) ms"
  using assms(2)
proof (cases rule: posix_tiling.cases)
  case posix_none
  have "\<forall>t. suffix t (c # cs) \<longrightarrow> \<not> posix_begins t"
    using posix_none(2) assms(1) by (auto simp: suffix_Cons)
  then show ?thesis
    unfolding posix_none(1) by (rule posix_tiling.posix_none)
next
  case (posix_hit g l m r run ms')
  have "\<forall>g2. suffix g2 (c # g) \<and> g2 \<noteq> [] \<longrightarrow> \<not> posix_begins (g2 @ l # m @ r)"
    using posix_hit(3) assms(1) posix_hit(1) by (auto simp: suffix_Cons)
  then have "posix_tiling ((c # g) @ l # m @ r) (m # ms')"
    using posix_hit(4-9) by (rule posix_tiling.posix_hit)
  then show ?thesis
    using posix_hit(1,2) by simp
qed

lemma posix_tiling_exists: "\<not> sublist [60, 47] s \<Longrightarrow> posix_tiling s (posix_scan s)"
proof (induction s rule: length_induct)
  case (1 s)
  note n = \<open>\<not> sublist [60, 47] s\<close>
  show ?case
  proof (cases s)
    case Nil
    have "\<forall>t. suffix t ([]::str) \<longrightarrow> \<not> posix_begins t"
      by (simp add: posix_begins_def)
    then show ?thesis
      unfolding Nil by (simp add: posix_tiling.posix_none)
  next
    case (Cons c cs)
    have nc: "\<not> sublist [60, 47] (c # cs)"
      using n Cons by simp
    show ?thesis
    proof (cases "posix_begins (c # cs)")
      case False
      have "\<not> sublist [60, 47] cs"
        using nc by (rule no_less_slash_suffix) (simp add: suffix_Cons)
      then have "posix_tiling cs (posix_scan cs)"
        using 1 Cons by simp
      then have "posix_tiling (c # cs) (posix_scan cs)"
        using False by (rule posix_tiling_skip [rotated])
      then show ?thesis
        unfolding Cons posix_scan_skip [OF nc False] .
    next
      case True
      then obtain x rest where cs: "cs = 47 # x # rest" and l: "lead_char c" and x: "posix_char x"
        unfolding posix_begins_def by auto
      let ?run = "takeWhile posix_char (x # rest)"
      let ?r = "dropWhile posix_char (x # rest)"
      have sp: "x # rest = ?run @ ?r" and all: "\<forall>y\<in>set ?run. posix_char y"
        and stop: "?r = [] \<or> \<not> posix_char (hd ?r)"
        using run_split [of "x # rest" posix_char] by blast+
      have ne: "?run \<noteq> []" using x by simp
      have "suffix ?r s"
        unfolding Cons cs by (metis sp append_Cons suffixI suffix_ConsI)
      then have nr: "\<not> sublist [60, 47] ?r"
        using n by (rule no_less_slash_suffix [rotated])
      have "length ?r < length s"
        unfolding Cons cs using length_dropWhile_le [of posix_char "x # rest"] by simp
      then have ih: "posix_tiling ?r (posix_scan ?r)"
        using 1 nr by blast
      have "\<forall>g2. suffix g2 ([]::str) \<and> g2 \<noteq> [] \<longrightarrow> \<not> posix_begins (g2 @ c # (47 # ?run) @ ?r)"
        by simp
      then have "posix_tiling ([] @ c # (47 # ?run) @ ?r) ((47 # ?run) # posix_scan ?r)"
        using l refl ne all stop ih by (rule posix_tiling.posix_hit)
      moreover have "[] @ c # (47 # ?run) @ ?r = s"
        unfolding Cons cs using sp by simp
      moreover have "posix_scan s = (47 # ?run) # posix_scan ?r"
        unfolding Cons using posix_scan_take [OF nc True] unfolding cs by simp
      ultimately show ?thesis by simp
    qed
  qed
qed

lemma posix_tiling_iff:
  "\<not> sublist [60, 47] s \<Longrightarrow> posix_tiling s ms \<longleftrightarrow> ms = posix_scan s"
  using posix_tiling_unique posix_tiling_exists by blast

lemma posix_text_tiling_iff:
  assumes "\<not> sublist [60, 47] s"
  shows "posix_text_tiling s ms \<longleftrightarrow> ms = posix_paths s"
proof (cases "\<exists>x rest. s = 47 # x # rest \<and> posix_char x")
  case True
  then obtain x rest where s: "s = 47 # x # rest" and x: "posix_char x"
    by blast
  let ?run = "takeWhile posix_char (x # rest)"
  let ?r = "dropWhile posix_char (x # rest)"
  have pp: "posix_paths s = (47 # ?run) # posix_scan ?r"
    unfolding posix_paths_def s using x by simp
  have sp: "x # rest = ?run @ ?r" and all: "\<forall>y\<in>set ?run. posix_char y"
    and stop: "?r = [] \<or> \<not> posix_char (hd ?r)"
    using run_split [of "x # rest" posix_char] by blast+
  have ne: "?run \<noteq> []" using x by simp
  have "suffix ?r s"
    unfolding s by (metis sp suffixI suffix_ConsI)
  then have nr: "\<not> sublist [60, 47] ?r"
    using assms by (rule no_less_slash_suffix [rotated])
  show ?thesis
  proof
    assume "posix_text_tiling s ms"
    then obtain run r ms' where a: "s = (47 # run) @ r" "run \<noteq> []" "\<forall>x\<in>set run. posix_char x"
      "r = [] \<or> \<not> posix_char (hd r)" "ms = (47 # run) # ms'" "posix_tiling r ms'"
      unfolding posix_text_tiling_def using True by blast
    have e: "x # rest = run @ r"
      using a(1) s by simp
    have "?run = run" "?r = r"
      unfolding e using run_takeWhile [OF a(3,4)] by simp_all
    then show "ms = posix_paths s"
      unfolding pp using a(5,6) nr by (simp add: posix_tiling_iff)
  next
    assume "ms = posix_paths s"
    then have m: "ms = (47 # ?run) # posix_scan ?r"
      using pp by simp
    have "s = (47 # ?run) @ ?r"
      unfolding s using sp by simp
    then show "posix_text_tiling s ms"
      unfolding posix_text_tiling_def using ne all stop m posix_tiling_exists [OF nr] by blast
  qed
next
  case False
  have "\<not> (take 1 s = [47] \<and> takeWhile posix_char (drop 1 s) \<noteq> [])"
  proof
    assume a: "take 1 s = [47] \<and> takeWhile posix_char (drop 1 s) \<noteq> []"
    then obtain rest where s: "s = 47 # rest" by (cases s) auto
    with a have "takeWhile posix_char rest \<noteq> []" by simp
    then obtain x r where "rest = x # r" "posix_char x" by (cases rest) (auto split: if_splits)
    with s False show False by blast
  qed
  then have pp: "posix_paths s = posix_scan s"
    unfolding posix_paths_def by (rule if_not_P)
  have n: "\<not> (\<exists>run r ms'. s = (47 # run) @ r \<and> run \<noteq> [] \<and> (\<forall>x\<in>set run. posix_char x) \<and>
        (r = [] \<or> \<not> posix_char (hd r)) \<and> ms = (47 # run) # ms' \<and> posix_tiling r ms')"
  proof
    assume "\<exists>run r ms'. s = (47 # run) @ r \<and> run \<noteq> [] \<and> (\<forall>x\<in>set run. posix_char x) \<and>
        (r = [] \<or> \<not> posix_char (hd r)) \<and> ms = (47 # run) # ms' \<and> posix_tiling r ms'"
    then obtain run r where a: "s = (47 # run) @ r" "run \<noteq> []" "\<forall>x\<in>set run. posix_char x"
      by blast
    obtain x run' where "run = x # run'" using a(2) by (cases run) auto
    with a False show False by auto
  qed
  have "posix_text_tiling s ms \<longleftrightarrow> posix_tiling s ms"
    unfolding posix_text_tiling_def using n False by blast
  then show ?thesis
    unfolding pp by (simp only: posix_tiling_iff [OF assms])
qed

lemmas scan_simps = py_def posix_paths_def posix_lead_def posix_char_def is_space_def
  ascii_letter_def win_char_def

lemma sample_extract:
  "win_paths (py ''cat /etc/passwd'') = []"
  "posix_paths (py ''cat /etc/passwd'') = [py ''/etc/passwd'']"
  by (simp_all add: scan_simps)

lemma sample_extract_sudo:
  "win_paths (py ''sudo cat /etc/passwd'') = []"
  "posix_paths (py ''sudo cat /etc/passwd'') = [py ''/etc/passwd'']"
  by (simp_all add: scan_simps)

lemma sample_extract_less:
  "win_paths (py ''cat </etc/passwd'') = []"
  "posix_paths (py ''cat </etc/passwd'') = []"
  by (simp_all add: scan_simps)

lemma sample_extract_inside:
  "win_paths (py ''cat /tmp/work/a|/etc/passwd'') = []"
  "posix_paths (py ''cat /tmp/work/a|/etc/passwd'') = [py ''/tmp/work/a|/etc/passwd'']"
  by (simp_all add: scan_simps)

lemma sample_extract_pipe:
  "win_paths (py ''echo x|/etc/passwd'') = []"
  "posix_paths (py ''echo x|/etc/passwd'') = [py ''/etc/passwd'']"
  by (simp_all add: scan_simps)

lemma sample_extract_semicolon:
  "win_paths (py ''type C:'' @ bslash @ py ''a;b'') = [py ''C:'' @ bslash @ py ''a'']"
  "posix_paths (py ''type C:'' @ bslash @ py ''a;b'') = []"
  by (simp_all add: scan_simps bslash_def)

lemma sample_resolve_facts:
  "sample_resolve (py ''/tmp/work'') = Some (PPath [47] True [py ''tmp'', py ''work''])"
  "sample_resolve (py ''/etc/passwd'') = Some (PPath [47] True [py ''etc'', py ''passwd''])"
  "sample_resolve (py ''/tmp/work/a|/etc/passwd'') =
     Some (PPath [47] True [py ''tmp'', py ''work'', py ''a|'', py ''etc'', py ''passwd''])"
  by (simp_all add: sample_resolve_def components_def py_def)

lemma strip_plain:
  "strip (py ''cat /etc/passwd'') = py ''cat /etc/passwd''"
  "strip (py ''sudo cat /etc/passwd'') = py ''sudo cat /etc/passwd''"
  "strip (py ''/etc/passwd'') = py ''/etc/passwd''"
  "strip (py ''cat </etc/passwd'') = py ''cat </etc/passwd''"
  "strip (py ''cat /tmp/work/a|/etc/passwd'') = py ''cat /tmp/work/a|/etc/passwd''"
  "strip (py ''/tmp/work/a|/etc/passwd'') = py ''/tmp/work/a|/etc/passwd''"
  "strip (py ''echo x|/etc/passwd'') = py ''echo x|/etc/passwd''"
  "strip (py ''type C:'' @ bslash @ py ''a;b'') = py ''type C:'' @ bslash @ py ''a;b''"
  by (simp_all add: strip_def py_def is_space_def bslash_def)

lemma sample_guard_paths:
  assumes "deny_passes (sample_config [py ''sudo''] [] True) sample_env command"
    and "\<not> has_traversal command"
  shows "guard_command (sample_config [py ''sudo''] [] True) sample_env command (py ''/tmp/work'') =
    Inr (path_loop sample_env (PPath [47] True [py ''tmp'', py ''work''])
      (extract_absolute_paths (strip command)))"
proof -
  have a: "allow_passes (sample_config [py ''sudo''] [] True) sample_env command"
    by (simp add: allow_passes_def sample_config_def)
  have r: "restrict_to_workspace (sample_config [py ''sudo''] [] True)"
    by (simp add: sample_config_def)
  have w: "path_resolve sample_env (py ''/tmp/work'') = Some (PPath [47] True [py ''tmp'', py ''work''])"
    by (simp add: sample_env_def sample_resolve_facts)
  show ?thesis
    unfolding guard_workspace [OF assms(1) a] using r assms(2) w by simp
qed

lemma sample_loop_outside:
  "path_loop sample_env (PPath [47] True [py ''tmp'', py ''work'']) [py ''/etc/passwd''] =
     Some msg_outside"
proof -
  have "path_resolve sample_env (strip (py ''/etc/passwd'')) =
      Some (PPath [47] True [py ''etc'', py ''passwd''])"
    unfolding strip_plain by (simp add: sample_env_def sample_resolve_facts)
  moreover have "PPath [47] True [py ''tmp'', py ''work''] \<notin>
      set (parents (PPath [47] True [py ''etc'', py ''passwd'']))"
    by (simp add: parents_iff py_def)
  moreover have "PPath [47] True [py ''etc'', py ''passwd''] \<noteq> PPath [47] True [py ''tmp'', py ''work'']"
    by (simp add: py_def)
  ultimately show ?thesis by simp
qed

lemma sample_loop_inside:
  "path_loop sample_env (PPath [47] True [py ''tmp'', py ''work''])
     [py ''/tmp/work/a|/etc/passwd''] = None"
proof -
  have "path_resolve sample_env (strip (py ''/tmp/work/a|/etc/passwd'')) =
      Some (PPath [47] True [py ''tmp'', py ''work'', py ''a|'', py ''etc'', py ''passwd''])"
    unfolding strip_plain by (simp add: sample_env_def sample_resolve_facts)
  moreover have "PPath [47] True [py ''tmp'', py ''work''] \<in>
      set (parents (PPath [47] True [py ''tmp'', py ''work'', py ''a|'', py ''etc'', py ''passwd'']))"
    by (simp add: parents_iff py_def)
  ultimately show ?thesis by simp
qed

lemma slash_after_less_strip: "\<not> slash_after_less command \<Longrightarrow> \<not> sublist [60, 47] (strip command)"
proof -
  have "sublist [60, 47] (strip command) \<longleftrightarrow> sublist [60, 47] command"
    by (rule sublist_strip_iff) (simp_all add: is_space_def)
  then show "\<not> slash_after_less command \<Longrightarrow> \<not> sublist [60, 47] (strip command)"
    by (simp add: slash_after_less_def py_def)
qed

subsection \<open>Paths outside the working directory\<close>

text \<open>
  C4, as the code has it. Take a command that passes the deny and the allow stage,
  holds no traversal token and has no slash right after \<open><\<close>, with
  \<open>restrict_to_workspace\<close> set and a working directory that resolves to \<open>c\<close>. The
  Windows scan of the trimmed text yields exactly its Windows literals and the POSIX
  scan exactly its POSIX literals, each in order: no literal begins before the first
  one extracted or between one and the next, each is taken as far as it goes, and the
  search goes on after it. The guard answers with the path-outside message if and
  only if one of these literals resolves to an absolute path that is neither \<open>c\<close> nor
  a descendant of \<open>c\<close>, a literal whose resolution raises being skipped; otherwise it
  lets the command through. What the guard does with a slash right after \<open><\<close> is left
  open: the Windows pattern lists \<open><\<close>, the POSIX pattern does not.
\<close>

theorem workspace_check:
  assumes "restrict_to_workspace cfg" and "deny_passes cfg e command" and "allow_passes cfg e command"
    and "\<not> has_traversal command" and "\<not> slash_after_less command"
    and "path_resolve e cwd = Some c"
  shows "(\<forall>ms. win_tiling (strip command) ms \<longleftrightarrow> ms = win_paths (strip command)) \<and>
         (\<forall>ms. posix_text_tiling (strip command) ms \<longleftrightarrow> ms = posix_paths (strip command)) \<and>
         (guard_command cfg e command cwd = Inr (Some msg_outside) \<longleftrightarrow>
           (\<exists>raw\<in>set (win_paths (strip command) @ posix_paths (strip command)).
              \<exists>p. path_resolve e (strip raw) = Some p \<and> is_absolute p \<and> p \<noteq> c \<and> \<not> is_descendant c p)) \<and>
         (guard_command cfg e command cwd \<noteq> Inr (Some msg_outside) \<longrightarrow>
            guard_command cfg e command cwd = Inr None)"
proof -
  have g: "guard_command cfg e command cwd = Inr (path_loop e c (extract_absolute_paths (strip command)))"
    using assms by (simp add: guard_workspace)
  have o: "outside_workspace e c raw \<longleftrightarrow>
      (\<exists>p. path_resolve e (strip raw) = Some p \<and> is_absolute p \<and> p \<noteq> c \<and> \<not> is_descendant c p)" for raw
    by (auto simp: outside_workspace_def split: option.splits)
  have n: "\<not> sublist [60, 47] (strip command)"
    using assms(5) by (rule slash_after_less_strip)
  have 1: "\<forall>ms. win_tiling (strip command) ms \<longleftrightarrow> ms = win_paths (strip command)"
    by (simp add: win_tiling_iff)
  have 2: "\<forall>ms. posix_text_tiling (strip command) ms \<longleftrightarrow> ms = posix_paths (strip command)"
    by (simp add: posix_text_tiling_iff [OF n])
  have 3: "(guard_command cfg e command cwd = Inr (Some msg_outside) \<longleftrightarrow>
           (\<exists>raw\<in>set (win_paths (strip command) @ posix_paths (strip command)).
              \<exists>p. path_resolve e (strip raw) = Some p \<and> is_absolute p \<and> p \<noteq> c \<and> \<not> is_descendant c p)) \<and>
         (guard_command cfg e command cwd \<noteq> Inr (Some msg_outside) \<longrightarrow>
            guard_command cfg e command cwd = Inr None)"
    unfolding g
    by (cases "path_loop e c (extract_absolute_paths (strip command))")
       (auto simp: path_loop_None path_loop_Some extract_absolute_paths_def o)
  show ?thesis
    using 1 2 3 by (intro conjI) simp_all
qed

theorem workspace_check_witness:
  "guard_command (sample_config [py ''sudo''] [] True) sample_env (py ''cat /etc/passwd'')
     (py ''/tmp/work'') = Inr (Some msg_outside) \<and>
   win_tiling (py ''cat /etc/passwd'') [] \<and>
   posix_text_tiling (py ''cat /etc/passwd'') [py ''/etc/passwd'']"
proof -
  let ?cfg = "sample_config [py ''sudo''] [] True"
  let ?c = "py ''cat /etc/passwd''"
  let ?w = "PPath [47] True [py ''tmp'', py ''work'']"
  let ?p = "PPath [47] True [py ''etc'', py ''passwd'']"
  have r: "restrict_to_workspace ?cfg" by (simp add: sample_config_def)
  have d: "deny_passes ?cfg sample_env ?c" by (simp add: sample_simps)
  have a: "allow_passes ?cfg sample_env ?c" by (simp add: sample_simps)
  have t: "\<not> has_traversal ?c" by (simp add: sample_simps)
  have l: "\<not> slash_after_less ?c" by (simp add: slash_after_less_def py_def sublist_code)
  have w: "path_resolve sample_env (py ''/tmp/work'') = Some ?w"
    by (simp add: sample_env_def sample_resolve_facts)
  have p1: "path_resolve sample_env (strip (py ''/etc/passwd'')) = Some ?p"
    unfolding strip_plain by (simp add: sample_env_def sample_resolve_facts)
  have p2: "is_absolute ?p \<and> ?p \<noteq> ?w \<and> \<not> is_descendant ?w ?p"
    by (simp add: is_descendant_def py_def)
  have m: "py ''/etc/passwd'' \<in> set (win_paths (strip ?c) @ posix_paths (strip ?c))"
    unfolding strip_plain sample_extract by simp
  have e: "\<exists>raw\<in>set (win_paths (strip ?c) @ posix_paths (strip ?c)).
      \<exists>p. path_resolve sample_env (strip raw) = Some p \<and> is_absolute p \<and> p \<noteq> ?w \<and> \<not> is_descendant ?w p"
    using m p1 p2 by (intro bexI [of _ "py ''/etc/passwd''"] exI [of _ ?p] conjI) simp_all
  note k = workspace_check [OF r d a t l w]
  have 1: "guard_command ?cfg sample_env ?c (py ''/tmp/work'') = Inr (Some msg_outside)"
    using e k [THEN conjunct2, THEN conjunct2, THEN conjunct1] by (rule iffD2 [rotated])
  have 2: "win_tiling ?c []"
    using k [THEN conjunct1] unfolding strip_plain sample_extract by simp
  have 3: "posix_text_tiling ?c [py ''/etc/passwd'']"
    using k [THEN conjunct2, THEN conjunct1] unfolding strip_plain sample_extract by simp
  show ?thesis
    using 1 2 3 by (intro conjI)
qed

text \<open>
  Where the claim as worded fails, in the working directory \<open>/tmp/work\<close> with the deny
  pattern \<open>sudo\<close>; \<open>/etc/passwd\<close> resolves outside the working directory.
  \<^item> The deny stage comes first: \<open>sudo cat /etc/passwd\<close> holds no traversal token and the
    extracted literal \<open>/etc/passwd\<close> resolves outside, yet the guard answers with the
    dangerous-pattern message, not the path-outside one.
  \<^item> A literal inside an earlier one is not extracted: from
    \<open>cat /tmp/work/a|/etc/passwd\<close> the one literal \<open>/tmp/work/a|/etc/passwd\<close> is
    extracted, which resolves inside, and the command is let through, although
    \<open>/etc/passwd\<close> stands right after a pipe.
  \<^item> A pipe leads a POSIX literal: \<open>echo x|/etc/passwd\<close> is blocked, although no slash
    stands at the start, after whitespace or after a redirect character.
  \<^item> \<open>;\<close> ends a Windows literal: from \<open>type C:\a;b\<close> the literal \<open>C:\a\<close> is extracted.
  \<^item> \<open><\<close> does not lead a POSIX literal: from \<open>cat </etc/passwd\<close> nothing is extracted and
    the command is let through.
\<close>

theorem workspace_check_fails_as_worded:
  "restrict_to_workspace (sample_config [py ''sudo''] [] True) \<and>
   path_resolve sample_env (py ''/tmp/work'') = Some (PPath [47] True [py ''tmp'', py ''work'']) \<and>
   path_resolve sample_env (strip (py ''/etc/passwd'')) = Some (PPath [47] True [py ''etc'', py ''passwd'']) \<and>
   PPath [47] True [py ''etc'', py ''passwd''] \<noteq> PPath [47] True [py ''tmp'', py ''work''] \<and>
   PPath [47] True [py ''tmp'', py ''work''] \<notin> set (parents (PPath [47] True [py ''etc'', py ''passwd''])) \<and>
   \<not> has_traversal (py ''sudo cat /etc/passwd'') \<and>
   py ''/etc/passwd'' \<in> set (extract_absolute_paths (strip (py ''sudo cat /etc/passwd''))) \<and>
   guard_command (sample_config [py ''sudo''] [] True) sample_env (py ''sudo cat /etc/passwd'')
     (py ''/tmp/work'') = Inr (Some msg_dangerous) \<and>
   msg_dangerous \<noteq> msg_outside \<and>
   extract_absolute_paths (strip (py ''cat /tmp/work/a|/etc/passwd'')) = [py ''/tmp/work/a|/etc/passwd''] \<and>
   guard_command (sample_config [py ''sudo''] [] True) sample_env (py ''cat /tmp/work/a|/etc/passwd'')
     (py ''/tmp/work'') = Inr None \<and>
   guard_command (sample_config [py ''sudo''] [] True) sample_env (py ''echo x|/etc/passwd'')
     (py ''/tmp/work'') = Inr (Some msg_outside) \<and>
   extract_absolute_paths (strip (py ''type C:'' @ bslash @ py ''a;b'')) = [py ''C:'' @ bslash @ py ''a''] \<and>
   extract_absolute_paths (strip (py ''cat </etc/passwd'')) = [] \<and>
   guard_command (sample_config [py ''sudo''] [] True) sample_env (py ''cat </etc/passwd'')
     (py ''/tmp/work'') = Inr None"
proof -
  let ?cfg = "sample_config [py ''sudo''] [] True"
  have "\<not> deny_passes ?cfg sample_env (py ''sudo cat /etc/passwd'')"
    by (simp add: sample_simps)
  then have 1: "guard_command ?cfg sample_env (py ''sudo cat /etc/passwd'')
     (py ''/tmp/work'') = Inr (Some msg_dangerous)"
    by (rule guard_deny)
  have 2: "\<not> has_traversal (py ''sudo cat /etc/passwd'')"
    by (simp add: sample_simps)
  have 3: "PPath [47] True [py ''tmp'', py ''work''] \<notin> set (parents (PPath [47] True [py ''etc'', py ''passwd'']))"
    by (simp add: parents_iff py_def)
  have 4: "PPath [47] True [py ''etc'', py ''passwd''] \<noteq> PPath [47] True [py ''tmp'', py ''work'']"
    by (simp add: py_def)
  have 5: "py ''/etc/passwd'' \<in> set (extract_absolute_paths (strip (py ''sudo cat /etc/passwd'')))"
    unfolding strip_plain extract_absolute_paths_def sample_extract_sudo by simp
  have 6: "path_resolve sample_env (py ''/tmp/work'') = Some (PPath [47] True [py ''tmp'', py ''work''])"
    "path_resolve sample_env (strip (py ''/etc/passwd'')) = Some (PPath [47] True [py ''etc'', py ''passwd''])"
    unfolding strip_plain by (simp_all add: sample_env_def sample_resolve_facts)
  have 7: "restrict_to_workspace ?cfg"
    by (simp add: sample_config_def)
  have 8: "extract_absolute_paths (strip (py ''cat /tmp/work/a|/etc/passwd'')) =
      [py ''/tmp/work/a|/etc/passwd'']"
    unfolding strip_plain extract_absolute_paths_def sample_extract_inside by simp
  have d9: "deny_passes ?cfg sample_env (py ''cat /tmp/work/a|/etc/passwd'')"
    and t9: "\<not> has_traversal (py ''cat /tmp/work/a|/etc/passwd'')"
    by (simp_all add: sample_simps)
  have 9: "guard_command ?cfg sample_env (py ''cat /tmp/work/a|/etc/passwd'')
      (py ''/tmp/work'') = Inr None"
    unfolding sample_guard_paths [OF d9 t9] 8 sample_loop_inside by simp
  have e10: "extract_absolute_paths (strip (py ''echo x|/etc/passwd'')) = [py ''/etc/passwd'']"
    unfolding strip_plain extract_absolute_paths_def sample_extract_pipe by simp
  have d10: "deny_passes ?cfg sample_env (py ''echo x|/etc/passwd'')"
    and t10: "\<not> has_traversal (py ''echo x|/etc/passwd'')"
    by (simp_all add: sample_simps)
  have 10: "guard_command ?cfg sample_env (py ''echo x|/etc/passwd'')
      (py ''/tmp/work'') = Inr (Some msg_outside)"
    unfolding sample_guard_paths [OF d10 t10] e10 sample_loop_outside by simp
  have 11: "extract_absolute_paths (strip (py ''type C:'' @ bslash @ py ''a;b'')) =
      [py ''C:'' @ bslash @ py ''a'']"
    unfolding strip_plain extract_absolute_paths_def sample_extract_semicolon by simp
  have 12: "extract_absolute_paths (strip (py ''cat </etc/passwd'')) = []"
    unfolding strip_plain extract_absolute_paths_def sample_extract_less by simp
  have d13: "deny_passes ?cfg sample_env (py ''cat </etc/passwd'')"
    and t13: "\<not> has_traversal (py ''cat </etc/passwd'')"
    by (simp_all add: sample_simps)
  have 13: "guard_command ?cfg sample_env (py ''cat </etc/passwd'')
      (py ''/tmp/work'') = Inr None"
    unfolding sample_guard_paths [OF d13 t13] 12 by simp
  show ?thesis
    using 1 2 3 4 5 6 7 8 9 10 11 12 13 msgs_distinct(3) by (intro conjI)
qed

section \<open>Running, timing out and rendering\<close>

lemma str_nat_small: "n < 10 \<Longrightarrow> str_nat n = [48 + n]"
  by (simp add: str_nat.simps)

lemma str_nat_big: "\<not> n < 10 \<Longrightarrow> str_nat n = str_nat (n div 10) @ [48 + n mod 10]"
  by (subst str_nat.simps) simp

lemma dec_value_append: "dec_value (xs @ [d]) = 10 * dec_value xs + (d - 48)"
  by (simp add: dec_value_def)

lemma dec_value_str_nat: "dec_value (str_nat n) = n"
proof (induction n rule: str_nat.induct)
  case (1 n)
  show ?case
  proof (cases "n < 10")
    case True
    then show ?thesis by (simp add: str_nat_small dec_value_def)
  next
    case False
    then show ?thesis using 1 by (simp add: str_nat_big dec_value_append)
  qed
qed

lemma set_str_nat: "set (str_nat n) \<subseteq> {48..57}"
proof (induction n rule: str_nat.induct)
  case (1 n)
  show ?case
  proof (cases "n < 10")
    case True
    then show ?thesis by (simp add: str_nat_small)
  next
    case False
    have "n mod 10 < 10" by simp
    then have "48 + n mod 10 \<in> {48..57}" by auto
    then show ?thesis using 1 False by (simp add: str_nat_big)
  qed
qed


lemma run_spawn_raised:
  "spawn_result w = SpawnRaised m \<Longrightarrow>
   run_command cfg e w command cwd =
     (msg_exception m, [CreateSubprocess (shell cfg) [py ''-c'', command] cwd (spawn_env cfg e)])"
  by (simp add: run_command_def Let_def)

lemma run_comm_raised:
  "spawn_result w = Spawned \<Longrightarrow> comm_result w = CommRaised m \<Longrightarrow>
   run_command cfg e w command cwd =
     (msg_exception m,
      [CreateSubprocess (shell cfg) [py ''-c'', command] cwd (spawn_env cfg e),
       Communicate (timeout cfg)])"
  by (simp add: run_command_def Let_def)

lemma run_timed_out:
  "spawn_result w = Spawned \<Longrightarrow> comm_result w = CommTimedOut \<Longrightarrow>
   run_command cfg e w command cwd =
     (msg_timeout cfg,
      [CreateSubprocess (shell cfg) [py ''-c'', command] cwd (spawn_env cfg e),
       Communicate (timeout cfg), Kill, WaitExit 5])"
  by (simp add: run_command_def Let_def split: grace_outcome.splits)

lemma run_completed:
  "spawn_result w = Spawned \<Longrightarrow> comm_result w = Completed out err rc \<Longrightarrow>
   run_command cfg e w command cwd =
     (render e out err rc,
      [CreateSubprocess (shell cfg) [py ''-c'', command] cwd (spawn_env cfg e),
       Communicate (timeout cfg), Rendered (render e out err rc)] @
      add_to_history cfg w command)"
  by (simp add: run_command_def Let_def)





subsection \<open>Truncation\<close>

lemma truncate_result_eq:
  "truncate_result r =
     (if length r \<le> 10000 then r
      else take 10000 r @ nl @ py ''... (truncated, '' @ str_nat (length r - 10000) @
           py '' more chars)'')"
proof (cases "length r \<le> 10000")
  case True
  then show ?thesis by (simp add: truncate_result_def max_len_def)
next
  case False
  then have "int (length r) - int max_len = int (length r - 10000)"
    by (simp add: max_len_def)
  then have "str_int (int (length r) - int max_len) = str_nat (length r - 10000)"
    by (simp add: str_int_def)
  with False show ?thesis by (simp add: truncate_result_def max_len_def)
qed

text \<open>
  C7. For a command that runs to completion, let \<open>r\<close> be the rendered text (the parts
  joined, or \<open>(no output)\<close>). If \<open>r\<close> has at most 10000 characters, \<open>execute\<close> returns
  \<open>r\<close> unchanged; otherwise it returns the first 10000 characters of \<open>r\<close>, a line break,
  and the marker \<open>... (truncated, n more chars)\<close>, where the digits \<open>n\<close> denote exactly
  the length of \<open>r\<close> minus 10000.
\<close>

theorem truncation_exact:
  assumes "guard_command cfg e command (choose_cwd cfg e wd) = Inr None"
    and "spawn_result w = Spawned" and "comm_result w = Completed out err rc"
  shows "fst (execute cfg e w command wd) =
           Inr (if length (joined_result (output_parts e out err rc)) \<le> 10000
                then joined_result (output_parts e out err rc)
                else take 10000 (joined_result (output_parts e out err rc)) @ nl @
                     py ''... (truncated, '' @
                     str_nat (length (joined_result (output_parts e out err rc)) - 10000) @
                     py '' more chars)'') \<and>
         dec_value (str_nat (length (joined_result (output_parts e out err rc)) - 10000)) =
           length (joined_result (output_parts e out err rc)) - 10000"
  using assms
  by (simp add: execute_allowed run_completed render_def truncate_result_eq dec_value_str_nat)

lemma sample_decode_a:
  "utf8_decode sample_env (replicate n 97) = replicate n 97"
  by (simp add: sample_env_def)

lemma sample_guard_free_echo:
  "guard_command (sample_config [py ''sudo''] [] False) sample_env (py ''yes a'') cwd = Inr None"
proof -
  have "deny_passes (sample_config [py ''sudo''] [] False) sample_env (py ''yes a'')"
    by (simp add: sample_simps)
  moreover have "allow_passes (sample_config [py ''sudo''] [] False) sample_env (py ''yes a'')"
    by (simp add: sample_simps)
  ultimately show ?thesis
    by (simp add: guard_workspace sample_config_def)
qed

lemma str_nat_1: "str_nat 1 = py ''1''"
  using str_nat_small [of 1] by (simp add: py_def)

lemma str_nat_15: "str_nat 15 = py ''15''"
  using str_nat_big [of 15] str_nat_small [of 1] by (simp add: py_def)

theorem truncation_exact_witness:
  "fst (execute (sample_config [py ''sudo''] [] False) sample_env
         (sample_run Spawned (Completed (replicate 10001 97) [] 0)) (py ''yes a'') None) =
     Inr (replicate 10000 97 @ nl @ py ''... (truncated, 1 more chars)'')"
proof -
  let ?w = "sample_run Spawned (Completed (replicate 10001 97) [] 0)"
  have s: "spawn_result ?w = Spawned" "comm_result ?w = Completed (replicate 10001 97) [] 0"
    by (simp_all add: sample_run_def)
  have j: "joined_result (output_parts sample_env (replicate 10001 97) [] 0) = replicate 10001 97"
    by (simp add: joined_result_def output_parts_def sample_decode_a)
  have m: "py ''... (truncated, '' @ str_nat 1 @ py '' more chars)'' = py ''... (truncated, 1 more chars)''"
    unfolding str_nat_1 by (simp add: py_def)
  have l: "\<not> length (replicate 10001 (97::nat)) \<le> 10000"
    "length (replicate 10001 (97::nat)) - 10000 = 1"
    "take 10000 (replicate 10001 (97::nat)) = replicate 10000 97"
    by simp_all
  show ?thesis
    unfolding truncation_exact [OF sample_guard_free_echo s, of None, THEN conjunct1] j l m
    by simp
qed

subsection \<open>The exit-code line\<close>

lemma prefix_before_sep:
  assumes "c \<notin> set n" and "prefix n (x @ c # y)"
  shows "prefix n x"
proof -
  from assms(2) consider "prefix n x" | n' where "n = x @ n'" "prefix n' (c # y)"
    by (auto simp: prefix_append)
  then show ?thesis
  proof cases
    case 1
    then show ?thesis .
  next
    case 2
    with assms(1) have "n' = []" by (cases n') auto
    with 2 show ?thesis by simp
  qed
qed

lemma sublist_across_sep:
  assumes "c \<notin> set n"
  shows "sublist n (x @ c # y) \<longleftrightarrow> sublist n x \<or> sublist n y"
proof (induction x)
  case Nil
  have "prefix n (c # y) \<Longrightarrow> n = []"
    using assms by (cases n) auto
  then show ?case
    by (auto simp: sublist_Cons_right)
next
  case (Cons a x)
  have "prefix n (a # x @ c # y) \<longleftrightarrow> prefix n (a # x)"
    using prefix_before_sep [OF assms, of "a # x" y] by (auto intro: prefix_order.trans)
  then show ?case
    using Cons by (auto simp: sublist_Cons_right)
qed

lemma join_last: "ps \<noteq> [] \<Longrightarrow> suffix (last ps) (join sep ps)"
proof (induction sep ps rule: join.induct)
  case (3 sep x y ys)
  then have "suffix (last (y # ys)) (join sep (y # ys))" by simp
  then have "suffix (last (y # ys)) (x @ sep @ join sep (y # ys))"
    by (intro suffix_appendI)
  then show ?case by simp
qed simp_all

lemma no_code_outside:
  "\<not> sublist (py ''Exit code:'') (py ''(no output)'')"
  "\<not> sublist (py ''Exit code:'') (py ''STDERR:'')"
  "10 \<notin> set (py ''Exit code:'')"
  by (auto simp: py_def dest: set_mono_sublist sublist_length_le)

lemma no_code_in_marker:
  "\<not> sublist (py ''Exit code:'') (py ''... (truncated, '' @ str_nat k @ py '' more chars)'')"
proof
  assume "sublist (py ''Exit code:'') (py ''... (truncated, '' @ str_nat k @ py '' more chars)'')"
  then have "set (py ''Exit code:'') \<subseteq> set (py ''... (truncated, '' @ str_nat k @ py '' more chars)'')"
    by (rule set_mono_sublist)
  then have "69 \<in> set (py ''... (truncated, '') \<union> set (str_nat k) \<union> set (py '' more chars)'')"
    by (auto simp: py_def)
  moreover have "69 \<notin> set (str_nat k)"
    using set_str_nat [of k] by auto
  ultimately show False by (simp add: py_def)
qed

lemma no_code_joined:
  assumes "\<not> sublist (py ''Exit code:'') (utf8_decode e out)"
    and "\<not> sublist (py ''Exit code:'') (utf8_decode e err)"
  shows "\<not> sublist (py ''Exit code:'') (joined_result (output_parts e out err 0))"
proof -
  have sep: "sublist (py ''Exit code:'') (x @ nl @ y) \<longleftrightarrow>
      sublist (py ''Exit code:'') x \<or> sublist (py ''Exit code:'') y" for x y
    using sublist_across_sep [OF no_code_outside(3), of x y] by (simp add: nl_def)
  show ?thesis
    using assms
    by (auto simp: joined_result_def output_parts_def sep no_code_outside)
qed

lemma no_code_truncated:
  assumes "\<not> sublist (py ''Exit code:'') r"
  shows "\<not> sublist (py ''Exit code:'') (truncate_result r)"
proof (cases "length r \<le> 10000")
  case True
  with assms show ?thesis by (simp add: truncate_result_eq)
next
  case False
  have "\<not> sublist (py ''Exit code:'') (take 10000 r)"
    using assms sublist_take sublist_order.order_trans by blast
  moreover have "sublist (py ''Exit code:'') (take 10000 r @ nl @ m) \<longleftrightarrow>
      sublist (py ''Exit code:'') (take 10000 r) \<or> sublist (py ''Exit code:'') m" for m
    using sublist_across_sep [OF no_code_outside(3), of "take 10000 r" m] by (simp add: nl_def)
  ultimately show ?thesis
    using False no_code_in_marker by (simp add: truncate_result_eq)
qed

text \<open>
  C8, as the code has it. For a command that runs to completion: if the exit code is not
  zero and the rendered text has at most 10000 characters, the returned string ends
  with a line break and \<open>Exit code: <code>\<close>; if the exit code is zero, nothing is
  appended, so that the returned string holds \<open>Exit code:\<close> only if the command's own
  decoded output or error output does.
\<close>

theorem exit_code_annotation:
  assumes "guard_command cfg e command (choose_cwd cfg e wd) = Inr None"
    and "spawn_result w = Spawned" and "comm_result w = Completed out err rc"
  shows "(rc \<noteq> 0 \<and> length (joined_result (output_parts e out err rc)) \<le> 10000 \<longrightarrow>
            (\<exists>body. fst (execute cfg e w command wd) =
                      Inr (body @ nl @ py ''Exit code: '' @ str_int rc))) \<and>
         (rc = 0 \<and> \<not> sublist (py ''Exit code:'') (utf8_decode e out) \<and>
          \<not> sublist (py ''Exit code:'') (utf8_decode e err) \<longrightarrow>
            (\<exists>r. fst (execute cfg e w command wd) = Inr r \<and> \<not> sublist (py ''Exit code:'') r))"
proof (intro conjI impI)
  have x: "fst (execute cfg e w command wd) = Inr (render e out err rc)"
    using assms by (simp add: execute_allowed run_completed)
  {
    assume a: "rc \<noteq> 0 \<and> length (joined_result (output_parts e out err rc)) \<le> 10000"
    let ?ps = "output_parts e out err rc"
    have ne: "?ps \<noteq> []" and l: "last ?ps = nl @ py ''Exit code: '' @ str_int rc"
      using a by (simp_all add: output_parts_def)
    from join_last [OF ne, of nl] l obtain body where
      "join nl ?ps = body @ nl @ py ''Exit code: '' @ str_int rc"
      by (auto simp: suffix_def)
    then have "render e out err rc = body @ nl @ py ''Exit code: '' @ str_int rc"
      using a ne by (simp add: render_def truncate_result_eq joined_result_def)
    then show "\<exists>body. fst (execute cfg e w command wd) =
                      Inr (body @ nl @ py ''Exit code: '' @ str_int rc)"
      using x by auto
  }
  {
    assume b: "rc = 0 \<and> \<not> sublist (py ''Exit code:'') (utf8_decode e out) \<and>
          \<not> sublist (py ''Exit code:'') (utf8_decode e err)"
    then have "\<not> sublist (py ''Exit code:'') (render e out err rc)"
      unfolding render_def by (intro no_code_truncated no_code_joined [of e out err, folded b [THEN conjunct1]]) simp_all
    then show "\<exists>r. fst (execute cfg e w command wd) = Inr r \<and> \<not> sublist (py ''Exit code:'') r"
      using x by auto
  }
qed

lemma str_int_small: "0 \<le> i \<Longrightarrow> i < 10 \<Longrightarrow> str_int i = [48 + nat i]"
  by (simp add: str_int_def str_nat_small)

theorem exit_code_annotation_witness:
  "(\<exists>body. fst (execute (sample_config [py ''sudo''] [] False) sample_env
               (sample_run Spawned (Completed [104, 105] [] 2)) (py ''yes a'') None) =
            Inr (body @ nl @ py ''Exit code: '' @ str_int 2)) \<and>
   (\<exists>r. fst (execute (sample_config [py ''sudo''] [] False) sample_env
               (sample_run Spawned (Completed [104, 105] [] 0)) (py ''yes a'') None) = Inr r \<and>
        \<not> sublist (py ''Exit code:'') r)"
proof -
  let ?cfg = "sample_config [py ''sudo''] [] False"
  have s: "spawn_result (sample_run Spawned c) = Spawned" "comm_result (sample_run Spawned c) = c" for c
    by (simp_all add: sample_run_def)
  have d: "utf8_decode sample_env [104, 105] = [104, 105]" "utf8_decode sample_env [] = []"
    by (simp_all add: sample_env_def)
  have 1: "(2::int) \<noteq> 0 \<and> length (joined_result (output_parts sample_env [104, 105] [] 2)) \<le> 10000"
    by (simp add: output_parts_def joined_result_def d str_int_small py_def nl_def)
  have 2: "(0::int) = 0 \<and> \<not> sublist (py ''Exit code:'') (utf8_decode sample_env [104, 105]) \<and>
      \<not> sublist (py ''Exit code:'') (utf8_decode sample_env [])"
    unfolding d by (simp add: py_def sublist_code)
  show ?thesis
    using exit_code_annotation [OF sample_guard_free_echo s(1) s(2) [of "Completed [104, 105] [] 2"],
        where wd = None, THEN conjunct1, rule_format, OF 1]
      exit_code_annotation [OF sample_guard_free_echo s(1) s(2) [of "Completed [104, 105] [] 0"],
        where wd = None, THEN conjunct2, rule_format, OF 2]
    by (rule conjI)
qed

text \<open>
  The annotation is appended before the text is cut: a command that prints 10001
  characters and exits with code 1 returns the first 10000 of them and the truncation
  marker, and the exit code appears nowhere in the result.
\<close>

theorem exit_code_lost_by_truncation:
  "fst (execute (sample_config [py ''sudo''] [] False) sample_env
         (sample_run Spawned (Completed (replicate 10001 97) [] 1)) (py ''yes a'') None) =
     Inr (replicate 10000 97 @ nl @ py ''... (truncated, 15 more chars)'') \<and>
   \<not> sublist (py ''Exit code: 1'') (replicate 10000 97 @ nl @ py ''... (truncated, 15 more chars)'')"
proof -
  let ?w = "sample_run Spawned (Completed (replicate 10001 97) [] 1)"
  have s: "spawn_result ?w = Spawned" "comm_result ?w = Completed (replicate 10001 97) [] 1"
    by (simp_all add: sample_run_def)
  have j: "joined_result (output_parts sample_env (replicate 10001 97) [] 1) =
      replicate 10001 97 @ nl @ nl @ py ''Exit code: 1''"
    by (simp add: joined_result_def output_parts_def sample_decode_a str_int_small py_def)
  have l: "length (replicate 10001 (97::nat) @ nl @ nl @ py ''Exit code: 1'') = 10015"
    by (simp add: nl_def py_def)
  have t: "take 10000 (replicate 10001 (97::nat) @ nl @ nl @ py ''Exit code: 1'') = replicate 10000 97"
    by simp
  have m: "py ''... (truncated, '' @ str_nat 15 @ py '' more chars)'' = py ''... (truncated, 15 more chars)''"
    unfolding str_nat_15 by (simp add: py_def)
  have x: "fst (execute (sample_config [py ''sudo''] [] False) sample_env ?w (py ''yes a'') None) =
      Inr (render sample_env (replicate 10001 97) [] 1)"
    using sample_guard_free_echo s by (simp add: execute_allowed run_completed)
  have r: "render sample_env (replicate 10001 97) [] 1 =
      replicate 10000 97 @ nl @ py ''... (truncated, 15 more chars)''"
    unfolding render_def j truncate_result_eq l t using m by simp
  have "69 \<notin> set (replicate 10000 (97::nat) @ nl @ py ''... (truncated, 15 more chars)'')"
    by (simp add: nl_def py_def)
  moreover have "69 \<in> set (py ''Exit code: 1'')"
    by (simp add: py_def)
  ultimately have "\<not> sublist (py ''Exit code: 1'') (replicate 10000 97 @ nl @ py ''... (truncated, 15 more chars)'')"
    using set_mono_sublist by blast
  then show ?thesis using x r by simp
qed

section \<open>What the caller receives\<close>

lemma guard_cases:
  "guard_command cfg e command cwd \<in>
     {Inr None, Inr (Some msg_dangerous), Inr (Some msg_not_allowed), Inr (Some msg_traversal),
      Inr (Some msg_outside)} \<or>
   guard_command cfg e command cwd = Inl ResolveRaised \<and> restrict_to_workspace cfg \<and>
     path_resolve e cwd = None"
proof (cases "deny_passes cfg e command")
  case False
  then show ?thesis by (simp add: guard_deny)
next
  case d: True
  show ?thesis
  proof (cases "allow_passes cfg e command")
    case False
    with d show ?thesis by (simp add: guard_allow)
  next
    case True
    have p: "path_loop e c raws = None \<or> path_loop e c raws = Some msg_outside" for c raws
      by (cases "path_loop e c raws") (auto simp: path_loop_Some)
    show ?thesis
    proof (cases "path_resolve e cwd")
      case None
      then show ?thesis
        unfolding guard_workspace [OF d True] by simp
    next
      case (Some c)
      then show ?thesis
        unfolding guard_workspace [OF d True]
        using p [of c "extract_absolute_paths (strip command)"] by auto
    qed
  qed
qed













section \<open>The configured deny list\<close>

lemma guard_dangerous_iff:
  "guard_command cfg e command cwd = Inr (Some msg_dangerous) \<longleftrightarrow>
     (\<exists>p\<in>set (deny_patterns cfg). re_search e p (str_lower e (strip command)))"
proof (cases "deny_passes cfg e command")
  case False
  then show ?thesis
    by (auto simp: guard_deny deny_passes_def list_ex_iff)
next
  case d: True
  have "guard_command cfg e command cwd \<noteq> Inr (Some msg_dangerous)"
  proof (cases "allow_passes cfg e command")
    case False
    with d show ?thesis by (simp add: guard_allow msgs_distinct)
  next
    case True
    show ?thesis
      unfolding guard_workspace [OF d True]
      by (auto simp: path_loop_Some msgs_distinct split: option.splits)
  qed
  with d show ?thesis
    by (auto simp: deny_passes_def list_ex_iff)
qed

text \<open>
  C9, as the code has it. A non-empty \<open>deny_patterns\<close> argument becomes the deny list as
  it is, and the guard then answers with the dangerous-pattern message exactly when one
  of the provided patterns is found: no built-in pattern takes part. An empty argument,
  like an absent one, selects the built-in patterns.
\<close>

theorem deny_patterns_override:
  "(ps \<noteq> [] \<longrightarrow>
      deny_patterns (ExecTool_init e0 t wd (Some ps) al r pa) = ps \<and>
      (guard_command (ExecTool_init e0 t wd (Some ps) al r pa) e command cwd =
         Inr (Some msg_dangerous) \<longleftrightarrow>
       (\<exists>p\<in>set ps. re_search e p (str_lower e (strip command))))) \<and>
   (ps = [] \<longrightarrow>
      deny_patterns (ExecTool_init e0 t wd (Some ps) al r pa) = default_deny_patterns) \<and>
   deny_patterns (ExecTool_init e0 t wd None al r pa) = default_deny_patterns"
proof -
  have "deny_patterns (ExecTool_init e0 t wd (Some ps) al r pa) = ps" if "ps \<noteq> []"
    using that by (simp add: ExecTool_init_def)
  then show ?thesis
    by (auto simp: guard_dangerous_iff) (simp_all add: ExecTool_init_def)
qed

theorem deny_patterns_override_witness:
  "deny_patterns (ExecTool_init sample_env 60 None (Some [py ''sudo'']) None False []) = [py ''sudo''] \<and>
   guard_command (ExecTool_init sample_env 60 None (Some [py ''sudo'']) None False []) sample_env
     (py ''SUDO reboot'') (py ''/tmp/work'') = Inr (Some msg_dangerous)"
proof -
  have n: "[py ''sudo''] \<noteq> []" by simp
  have m: "\<exists>p\<in>set [py ''sudo'']. re_search sample_env p (str_lower sample_env (strip (py ''SUDO reboot'')))"
    by (simp add: sample_simps)
  from deny_patterns_override [of "[py ''sudo'']" sample_env 60 None None False "[]" sample_env
      "py ''SUDO reboot''" "py ''/tmp/work''", THEN conjunct1, rule_format, OF n] m
  show ?thesis by blast
qed

text \<open>
  \<open>deny_patterns or [...]\<close> treats the empty list like \<open>None\<close>: a tool constructed with
  \<open>deny_patterns=[]\<close> has the built-in deny list and blocks \<open>reboot\<close>.
\<close>

theorem empty_deny_list_selects_defaults:
  "deny_patterns (ExecTool_init reboot_env 60 None (Some []) None False []) = default_deny_patterns \<and>
   default_deny_patterns \<noteq> [] \<and>
   execute (ExecTool_init reboot_env 60 None (Some []) None False []) reboot_env
     (sample_run Spawned (Completed [] [] 0)) (py ''reboot'') None = (Inr msg_dangerous, [])"
proof -
  let ?cfg = "ExecTool_init reboot_env 60 None (Some []) None False []"
  let ?p = "bslash @ py ''b(shutdown|reboot|poweroff)'' @ bslash @ py ''b''"
  have d: "deny_patterns ?cfg = default_deny_patterns"
    by (simp add: ExecTool_init_def)
  have "?p \<in> set default_deny_patterns"
    by (simp add: default_deny_patterns_def)
  then have 1: "?p \<in> set (deny_patterns ?cfg)"
    by (simp only: d)
  have l: "str_lower reboot_env (strip (py ''reboot'')) = py ''reboot''"
    by (simp add: reboot_env_def sample_env_def ascii_lower_def strip_def is_space_def py_def)
  have 2: "0 \<le> length (str_lower reboot_env (strip (py ''reboot'')))" by simp
  have 3: "re_match_at reboot_env ?p (str_lower reboot_env (strip (py ''reboot''))) 0"
    unfolding l by (simp add: reboot_env_def)
  have "execute ?cfg reboot_env (sample_run Spawned (Completed [] [] 0)) (py ''reboot'') None =
      (Inr msg_dangerous, [])"
    using 1 2 3 by (rule deny_blocks)
  moreover have "default_deny_patterns \<noteq> []"
    by (simp add: default_deny_patterns_def)
  ultimately show ?thesis using d by simp
qed

section \<open>Recording the command in the shell history\<close>

lemma filter_history_run:
  "filter is_history (snd (run_command cfg e w command cwd)) =
     (if spawn_result w = Spawned \<and> completed (comm_result w) then add_to_history cfg w command else [])"
proof (cases "spawn_result w")
  case Spawned
  then show ?thesis
    by (cases "comm_result w")
       (simp_all add: run_completed run_timed_out run_comm_raised add_to_history_def Let_def)
next
  case (SpawnRaised m)
  then show ?thesis by (simp add: run_spawn_raised)
qed

text \<open>
  C10. The steps of a call include an attempt to launch the history process exactly when
  the guard lets the command through, its process is created, the command completes
  and the shell path contains \<open>fish\<close>, and then exactly one; a call that ends with a
  guard message, an exception of the guard, a spawn or wait exception or a timeout
  makes none. On a completed run the steps are, in order: create the process, wait for
  it, build the result, and (for fish) launch the history process; the value returned
  is the result built before the launch.
\<close>

theorem history_only_after_completion:
  "filter is_history (snd (execute cfg e w command wd)) =
     (if guard_command cfg e command (choose_cwd cfg e wd) = Inr None \<and>
         spawn_result w = Spawned \<and> completed (comm_result w) \<and>
         sublist (py ''fish'') (shell cfg)
      then [CreateHistory (shell cfg)
              [py ''-c'',
               py ''history append '' @ squote @
               replace_squote (squote @ dquote @ squote @ dquote @ squote) command @ squote]]
      else []) \<and>
   (\<forall>out err rc.
      guard_command cfg e command (choose_cwd cfg e wd) = Inr None \<and>
      spawn_result w = Spawned \<and> comm_result w = Completed out err rc \<longrightarrow>
        fst (execute cfg e w command wd) = Inr (render e out err rc) \<and>
        snd (execute cfg e w command wd) =
          [CreateSubprocess (shell cfg) [py ''-c'', command] (choose_cwd cfg e wd) (spawn_env cfg e),
           Communicate (timeout cfg), Rendered (render e out err rc)] @
          (if sublist (py ''fish'') (shell cfg)
           then [CreateHistory (shell cfg)
                   [py ''-c'',
                    py ''history append '' @ squote @
                    replace_squote (squote @ dquote @ squote @ dquote @ squote) command @ squote]]
           else []))"
proof (intro conjI allI impI)
  let ?g = "guard_command cfg e command (choose_cwd cfg e wd)"
  from guard_cases [of cfg e command "choose_cwd cfg e wd"]
  consider m where "?g = Inr (Some m)" "m \<noteq> []" | "?g = Inr None" | "?g = Inl ResolveRaised"
    using msgs_nonempty by auto
  then show "filter is_history (snd (execute cfg e w command wd)) =
     (if ?g = Inr None \<and> spawn_result w = Spawned \<and> completed (comm_result w) \<and>
         sublist (py ''fish'') (shell cfg)
      then [CreateHistory (shell cfg)
              [py ''-c'',
               py ''history append '' @ squote @
               replace_squote (squote @ dquote @ squote @ dquote @ squote) command @ squote]]
      else [])"
  proof cases
    case 1
    then show ?thesis by (simp add: execute_blocked)
  next
    case 2
    then show ?thesis
      by (simp add: execute_allowed filter_history_run add_to_history_def Let_def)
  next
    case 3
    then show ?thesis by (simp add: execute_raised)
  qed
next
  fix out err rc
  assume "guard_command cfg e command (choose_cwd cfg e wd) = Inr None \<and>
      spawn_result w = Spawned \<and> comm_result w = Completed out err rc"
  then show "fst (execute cfg e w command wd) = Inr (render e out err rc)"
    "snd (execute cfg e w command wd) =
          [CreateSubprocess (shell cfg) [py ''-c'', command] (choose_cwd cfg e wd) (spawn_env cfg e),
           Communicate (timeout cfg), Rendered (render e out err rc)] @
          (if sublist (py ''fish'') (shell cfg)
           then [CreateHistory (shell cfg)
                   [py ''-c'',
                    py ''history append '' @ squote @
                    replace_squote (squote @ dquote @ squote @ dquote @ squote) command @ squote]]
           else [])"
    by (simp_all add: execute_allowed run_completed add_to_history_def Let_def)
qed

lemma sample_guard_free_quote:
  "guard_command (sample_config [py ''sudo''] [] False) sample_env (py ''echo it'' @ squote @ py ''s'') cwd
     = Inr None"
proof -
  have "deny_passes (sample_config [py ''sudo''] [] False) sample_env (py ''echo it'' @ squote @ py ''s'')"
    by (simp add: sample_simps squote_def)
  moreover have "allow_passes (sample_config [py ''sudo''] [] False) sample_env (py ''echo it'' @ squote @ py ''s'')"
    by (simp add: sample_simps)
  ultimately show ?thesis
    by (simp add: guard_workspace sample_config_def)
qed

theorem history_only_after_completion_witness:
  "filter is_history (snd (execute (sample_config [py ''sudo''] [] False) sample_env
       (sample_run Spawned (Completed [104, 105] [] 0)) (py ''echo it'' @ squote @ py ''s'') None)) =
     [CreateHistory (py ''/usr/bin/fish'')
        [py ''-c'',
         py ''history append '' @ squote @ py ''echo it'' @ squote @ dquote @ squote @ dquote @
         squote @ py ''s'' @ squote]] \<and>
   filter is_history (snd (execute (sample_config [py ''sudo''] [] False) sample_env
       (sample_run Spawned CommTimedOut) (py ''echo it'' @ squote @ py ''s'') None)) = []"
proof -
  let ?cfg = "sample_config [py ''sudo''] [] False"
  have s: "spawn_result (sample_run Spawned c) = Spawned" "comm_result (sample_run Spawned c) = c" for c
    by (simp_all add: sample_run_def)
  have f: "sublist (py ''fish'') (shell ?cfg)" "shell ?cfg = py ''/usr/bin/fish''"
    by (simp_all add: sample_config_def py_def sublist_code)
  have q: "replace_squote (squote @ dquote @ squote @ dquote @ squote) (py ''echo it'' @ squote @ py ''s'') =
      py ''echo it'' @ squote @ dquote @ squote @ dquote @ squote @ py ''s''"
    by (simp add: replace_squote_def py_def squote_def dquote_def)
  show ?thesis
    unfolding history_only_after_completion [THEN conjunct1] sample_guard_free_quote s
    using f by (simp add: q)
qed

end
